theory Spec2Isabelle
  imports Complex_Main "HOL-Library.AList"
begin

section \<open>Python values: errors and dictionaries\<close>

text \<open>
  The two scripts (\<^verbatim>\<open>RNN.py\<close>, \<^verbatim>\<open>Transformermodel.py\<close>) are Python. Every exception
  the modelled code can raise is a value of \<open>py_error\<close>; a function that can raise
  returns \<open>py_error + 'a\<close> with \<open>Inl\<close> the exception.
\<close>

datatype py_error =
  KeyError | NameError | TypeError | IndexError | ZeroDivisionError | RuntimeError | AssertionError

text \<open>
  A Python \<^verbatim>\<open>dict\<close> is an association list in insertion order with distinct keys:
  \<^verbatim>\<open>d[k] = v\<close> overwrites in place or appends, \<^verbatim>\<open>len(d)\<close> is the number of entries,
  \<^verbatim>\<open>k in d\<close> tests the key and \<^verbatim>\<open>d[k]\<close> raises \<^verbatim>\<open>KeyError\<close> on a missing key.
\<close>

type_synonym ('k, 'v) dict = "('k \<times> 'v) list"

definition dict_set :: "'k \<Rightarrow> 'v \<Rightarrow> ('k, 'v) dict \<Rightarrow> ('k, 'v) dict" where
  "dict_set k v d = AList.update k v d"

definition dict_len :: "('k, 'v) dict \<Rightarrow> int" where
  "dict_len d = int (length d)"

definition dict_contains :: "('k, 'v) dict \<Rightarrow> 'k \<Rightarrow> bool" where
  "dict_contains d k = (map_of d k \<noteq> None)"

definition dict_get :: "('k, 'v) dict \<Rightarrow> 'k \<Rightarrow> py_error + 'v" where
  "dict_get d k = (case map_of d k of None \<Rightarrow> Inl KeyError | Some v \<Rightarrow> Inr v)"

section \<open>Vocabulary\<close>

text \<open>
  A token is a Python string; the corpus encoders pass one-character strings.
  \<^verbatim>\<open>class Vocabulary\<close> of \<^verbatim>\<open>RNN.py\<close> has the two dictionaries and the two shortcut ids;
  the class of the same name in \<^verbatim>\<open>Transformermodel.py\<close> adds \<^verbatim>\<open>eos_id\<close> and \<^verbatim>\<open>sos_id\<close>
  and is the record extension \<open>seq_vocabulary\<close>. The methods are the same text in both
  files and are defined once, on the record scheme.
\<close>

type_synonym token = string

record vocabulary =
  id_to_string :: "(int, token) dict"
  string_to_id :: "(token, int) dict"
  pad_id :: int
  unk_id :: int

record seq_vocabulary = vocabulary +
  eos_id :: int
  sos_id :: int

text \<open>\<^verbatim>\<open>Vocabulary.__init__(pad_token, unk_token)\<close> of \<^verbatim>\<open>RNN.py\<close>.\<close>

definition Vocabulary :: "token \<Rightarrow> token \<Rightarrow> vocabulary" where
  "Vocabulary pad_token unk_token =
     (let i2s = dict_set 0 pad_token [];
          s2i = dict_set pad_token 0 [];
          i2s = dict_set 1 unk_token i2s;
          s2i = dict_set unk_token 1 s2i
      in \<lparr>id_to_string = i2s, string_to_id = s2i, pad_id = 0, unk_id = 1\<rparr>)"

text \<open>The default arguments: \<^verbatim>\<open>Vocabulary()\<close>.\<close>

definition Vocabulary_default :: vocabulary where
  "Vocabulary_default = Vocabulary ''<pad>'' ''<unk>''"

text \<open>\<^verbatim>\<open>Vocabulary.__init__(pad_token, unk_token, eos_token, sos_token)\<close> of
  \<^verbatim>\<open>Transformermodel.py\<close>.\<close>

definition SeqVocabulary :: "token \<Rightarrow> token \<Rightarrow> token \<Rightarrow> token \<Rightarrow> seq_vocabulary" where
  "SeqVocabulary pad_token unk_token eos_token sos_token =
     (let i2s = dict_set 0 pad_token [];
          s2i = dict_set pad_token 0 [];
          i2s = dict_set 1 unk_token i2s;
          s2i = dict_set unk_token 1 s2i;
          i2s = dict_set 2 eos_token i2s;
          s2i = dict_set eos_token 2 s2i;
          i2s = dict_set 3 sos_token i2s;
          s2i = dict_set sos_token 3 s2i
      in \<lparr>id_to_string = i2s, string_to_id = s2i, pad_id = 0, unk_id = 1,
          eos_id = 2, sos_id = 3\<rparr>)"

definition SeqVocabulary_default :: seq_vocabulary where
  "SeqVocabulary_default = SeqVocabulary ''<pad>'' ''<unk>'' ''<eos>'' ''<sos>''"

text \<open>\<^verbatim>\<open>__len__\<close>: the number of entries of \<^verbatim>\<open>id_to_string\<close>.\<close>

definition vocab_len :: "'a vocabulary_scheme \<Rightarrow> int" where
  "vocab_len v = dict_len (id_to_string v)"

text \<open>
  \<^verbatim>\<open>add_new_word\<close>: two assignments, the second reading the length of
  \<^verbatim>\<open>id_to_string\<close> (not of the dictionary just extended).
\<close>

definition add_new_word :: "'a vocabulary_scheme \<Rightarrow> token \<Rightarrow> 'a vocabulary_scheme" where
  "add_new_word v s =
     (let v1 = v\<lparr>string_to_id := dict_set s (dict_len (string_to_id v)) (string_to_id v)\<rparr>
      in v1\<lparr>id_to_string := dict_set (dict_len (id_to_string v1)) s (id_to_string v1)\<rparr>)"

text \<open>
  \<^verbatim>\<open>get_idx(string, extend_vocab)\<close> returns the id and the vocabulary as the call
  leaves it. Both subscript reads are \<open>dict_get\<close>, so a \<^verbatim>\<open>KeyError\<close> would show.
\<close>

definition get_idx ::
  "'a vocabulary_scheme \<Rightarrow> token \<Rightarrow> bool \<Rightarrow> py_error + (int \<times> 'a vocabulary_scheme)" where
  "get_idx v s extend_vocab =
     (if dict_contains (string_to_id v) s then
        (case dict_get (string_to_id v) s of Inl e \<Rightarrow> Inl e | Inr i \<Rightarrow> Inr (i, v))
      else if extend_vocab then
        (let v' = add_new_word v s
         in case dict_get (string_to_id v') s of Inl e \<Rightarrow> Inl e | Inr i \<Rightarrow> Inr (i, v'))
      else Inr (unk_id v, v))"

section \<open>Corpus encoder (\<^verbatim>\<open>TextData.text_to_data\<close>)\<close>

text \<open>
  The inner loop \<^verbatim>\<open>for token in list(line): full_text.append(vocab.get_idx(token, ...))\<close>:
  every character of the line is a one-character token; the ids are appended to the list
  built so far.
\<close>

fun encode_tokens ::
  "'a vocabulary_scheme \<Rightarrow> bool \<Rightarrow> string \<Rightarrow> int list \<Rightarrow> py_error + (int list \<times> 'a vocabulary_scheme)" where
  "encode_tokens v extend_vocab [] full_text = Inr (full_text, v)"
| "encode_tokens v extend_vocab (c # cs) full_text =
     (case get_idx v [c] extend_vocab of
        Inl e \<Rightarrow> Inl e
      | Inr (i, v') \<Rightarrow> encode_tokens v' extend_vocab cs (full_text @ [i]))"

text \<open>The outer loop \<^verbatim>\<open>for line in text\<close>.\<close>

fun encode_lines ::
  "'a vocabulary_scheme \<Rightarrow> bool \<Rightarrow> string list \<Rightarrow> int list \<Rightarrow> py_error + (int list \<times> 'a vocabulary_scheme)" where
  "encode_lines v extend_vocab [] full_text = Inr (full_text, v)"
| "encode_lines v extend_vocab (line # rest) full_text =
     (case encode_tokens v extend_vocab line full_text of
        Inl e \<Rightarrow> Inl e
      | Inr (full_text', v') \<Rightarrow> encode_lines v' extend_vocab rest full_text')"

text \<open>
  \<^verbatim>\<open>text_to_data(text_file, vocab, extend_vocab, device)\<close>. The file is the list of its
  lines (each with its line terminator), or \<open>None\<close> when the path does not exist, which
  fails the \<^verbatim>\<open>assert\<close>. The tensor returned is the list of ids.
\<close>

definition text_to_data ::
  "string list option \<Rightarrow> vocabulary option \<Rightarrow> bool \<Rightarrow> py_error + (int list \<times> vocabulary)" where
  "text_to_data text_file vocab extend_vocab =
     (case text_file of
        None \<Rightarrow> Inl AssertionError
      | Some text \<Rightarrow>
          (let vocab = (case vocab of None \<Rightarrow> Vocabulary_default | Some v \<Rightarrow> v)
           in encode_lines vocab extend_vocab text []))"

section \<open>The vocabulary invariant\<close>

text \<open>
  The data model's invariant: ids are contiguous from 0 in insertion order, every string
  has one id and every id one string. As a property of the two association lists:
  \<open>string_to_id\<close> is \<open>id_to_string\<close> with every pair flipped, the ids are \<open>0, 1, ...\<close>,
  and no string occurs twice.
\<close>

definition flip_dict :: "('k, 'v) dict \<Rightarrow> ('v, 'k) dict" where
  "flip_dict d = map (\<lambda>p. (snd p, fst p)) d"

definition vocab_inv :: "'a vocabulary_scheme \<Rightarrow> bool" where
  "vocab_inv v =
     (string_to_id v = flip_dict (id_to_string v) \<and>
      map fst (id_to_string v) = map int [0..<length (id_to_string v)] \<and>
      distinct (map snd (id_to_string v)))"

section \<open>Tensors of ids as lists\<close>

text \<open>
  A one-dimensional tensor is the list of its cells, a two-dimensional one the list of its
  rows. \<^verbatim>\<open>t.new_full((n,), v)\<close> raises on a negative size.
\<close>

definition new_full :: "int \<Rightarrow> 'a \<Rightarrow> py_error + 'a list" where
  "new_full n v = (if n < 0 then Inl RuntimeError else Inr (replicate (nat n) v))"

text \<open>
  Python's slice \<^verbatim>\<open>xs[a:b]\<close> along the first dimension: a negative bound counts from the
  end, and both bounds are clamped to the length.
\<close>

definition py_slice :: "'a list \<Rightarrow> int \<Rightarrow> int \<Rightarrow> 'a list" where
  "py_slice xs a b =
     (let n = int (length xs);
          lo = (if a < 0 then max (a + n) 0 else min a n);
          hi = (if b < 0 then max (b + n) 0 else min b n)
      in drop (nat lo) (take (nat hi) xs))"

text \<open>
  The slice assignment \<^verbatim>\<open>dst[:k] = src\<close> on one-dimensional tensors: the sizes must
  agree, or \<^verbatim>\<open>src\<close> has one cell, which is broadcast over the slice.
\<close>

definition assign_prefix :: "'a list \<Rightarrow> int \<Rightarrow> 'a list \<Rightarrow> py_error + 'a list" where
  "assign_prefix dst k src =
     (let slot = py_slice dst 0 k;
          rest = drop (length slot) dst
      in if length src = length slot then Inr (src @ rest)
         else if length src = 1 then Inr (replicate (length slot) (hd src) @ rest)
         else Inl RuntimeError)"

text \<open>
  \<^verbatim>\<open>xs.view(r, c)\<close>: the \<open>r\<close> rows of \<open>c\<close> consecutive cells each. The sizes must
  multiply to the number of cells. A negative size is refused; torch reads \<^verbatim>\<open>-1\<close> as a
  size to infer, but the batcher passes a negative first size only with a second size
  that is zero or negative, which torch refuses as well.
\<close>

definition view2 :: "'a list \<Rightarrow> int \<Rightarrow> int \<Rightarrow> py_error + 'a list list" where
  "view2 xs r c =
     (if r < 0 \<or> c < 0 \<or> int (length xs) \<noteq> r * c then Inl RuntimeError
      else Inr (map (\<lambda>i. take (nat c) (drop (i * nat c) xs)) [0..<nat r]))"

text \<open>\<^verbatim>\<open>m.t()\<close> of a matrix with \<open>c\<close> columns: row \<open>j\<close> is column \<open>j\<close> of \<open>m\<close>.\<close>

definition tensor_t :: "'a list list \<Rightarrow> int \<Rightarrow> 'a list list" where
  "tensor_t m c = map (\<lambda>j. map (\<lambda>row. row ! j) m) [0..<nat c]"

text \<open>\<^verbatim>\<open>range(n)\<close>.\<close>

definition py_range :: "int \<Rightarrow> int list" where
  "py_range n = map int [0..<nat n]"

section \<open>Batcher (\<^verbatim>\<open>DataBatches.create_batch\<close>)\<close>

text \<open>Line 122: \<^verbatim>\<open>segment_len = text_len // bsz + 1\<close>, floor division.\<close>

definition segment_len_of :: "int \<Rightarrow> int \<Rightarrow> py_error + int" where
  "segment_len_of text_len bsz =
     (if bsz = 0 then Inl ZeroDivisionError else Inr (text_len div bsz + 1))"

text \<open>Lines 121 to 127: the flat sequence, padded.\<close>

definition padded_flat :: "int list \<Rightarrow> int \<Rightarrow> int \<Rightarrow> py_error + int list" where
  "padded_flat input_data bsz pad =
     (let text_len = int (length input_data)
      in case segment_len_of text_len bsz of
           Inl e \<Rightarrow> Inl e
         | Inr segment_len \<Rightarrow>
             (case new_full (segment_len * bsz) pad of
                Inl e \<Rightarrow> Inl e
              | Inr padded \<Rightarrow> assign_prefix padded text_len input_data))"

text \<open>Line 128: \<^verbatim>\<open>padded.view(bsz, segment_len).t()\<close>, the (time, lane) grid.\<close>

definition padded_grid :: "int list \<Rightarrow> int \<Rightarrow> int \<Rightarrow> py_error + int list list" where
  "padded_grid input_data bsz pad =
     (case padded_flat input_data bsz pad of
        Inl e \<Rightarrow> Inl e
      | Inr padded \<Rightarrow>
          (case segment_len_of (int (length input_data)) bsz of
             Inl e \<Rightarrow> Inl e
           | Inr segment_len \<Rightarrow>
               (case view2 padded bsz segment_len of
                  Inl e \<Rightarrow> Inl e
                | Inr lanes \<Rightarrow> Inr (tensor_t lanes segment_len))))"

text \<open>Line 129: \<^verbatim>\<open>num_batches = segment_len // bptt_len + 1\<close>.\<close>

definition num_batches_of :: "int \<Rightarrow> int \<Rightarrow> py_error + int" where
  "num_batches_of segment_len bptt_len =
     (if bptt_len = 0 then Inl ZeroDivisionError else Inr (segment_len div bptt_len + 1))"

text \<open>
  Lines 134 to 141, the body of the loop for index \<open>i\<close>: window 0 is a row of pad ids
  concatenated with the first rows of the grid, a later window starts one row early.
\<close>

definition batch_at :: "int list list \<Rightarrow> int \<Rightarrow> int \<Rightarrow> int \<Rightarrow> int \<Rightarrow> py_error + int list list" where
  "batch_at padded bsz bptt_len pad i =
     (if i = 0 then
        (case new_full bsz pad of
           Inl e \<Rightarrow> Inl e
         | Inr row \<Rightarrow> Inr ([row] @ py_slice padded (i * bptt_len) ((i + 1) * bptt_len)))
      else Inr (py_slice padded (i * bptt_len - 1) ((i + 1) * bptt_len)))"

text \<open>Lines 131 to 141: the loop over \<^verbatim>\<open>range(num_batches)\<close>, appending to \<^verbatim>\<open>batches\<close>.\<close>

fun batch_loop ::
  "int list list \<Rightarrow> int \<Rightarrow> int \<Rightarrow> int \<Rightarrow> int list \<Rightarrow> int list list list \<Rightarrow>
   py_error + int list list list" where
  "batch_loop padded bsz bptt_len pad [] batches = Inr batches"
| "batch_loop padded bsz bptt_len pad (i # rest) batches =
     (case batch_at padded bsz bptt_len pad i of
        Inl e \<Rightarrow> Inl e
      | Inr batch \<Rightarrow> batch_loop padded bsz bptt_len pad rest (batches @ [batch]))"

text \<open>
  \<^verbatim>\<open>create_batch(input_data, bsz, bptt_len, pad_id)\<close>; \<open>input_data\<close> is the tensor of the
  \<^verbatim>\<open>TextData\<close> object and \<open>pad\<close> the argument \<^verbatim>\<open>pad_id\<close> (the name \<open>pad_id\<close> is the
  vocabulary's field here).
\<close>

definition create_batch :: "int list \<Rightarrow> int \<Rightarrow> int \<Rightarrow> int \<Rightarrow> py_error + int list list list" where
  "create_batch input_data bsz bptt_len pad =
     (case padded_grid input_data bsz pad of
        Inl e \<Rightarrow> Inl e
      | Inr padded \<Rightarrow>
          (case segment_len_of (int (length input_data)) bsz of
             Inl e \<Rightarrow> Inl e
           | Inr segment_len \<Rightarrow>
               (case num_batches_of segment_len bptt_len of
                  Inl e \<Rightarrow> Inl e
                | Inr num_batches \<Rightarrow>
                    batch_loop padded bsz bptt_len pad (py_range num_batches) [])))"

section \<open>Paired dataset (\<^verbatim>\<open>ParallelTextDataset.parallel_text_to_data\<close>)\<close>

text \<open>
  Lines 95 to 101 (and 103 to 109): the maximum line length of a file, the loop started
  from \<open>0\<close>.
\<close>

fun max_length_loop :: "string list \<Rightarrow> int \<Rightarrow> int" where
  "max_length_loop [] m = m"
| "max_length_loop (line # text) m =
     (let len = int (length line)
      in max_length_loop text (if m < len then len else m))"

text \<open>
  Lines 130 and 131 (and 151 and 152): \<^verbatim>\<open>new_seq = var_seq.data.new(n).fill_(pad)\<close>, then
  \<^verbatim>\<open>new_seq[:var_len] = var_seq\<close>.
\<close>

definition pad_sequence :: "int list \<Rightarrow> int \<Rightarrow> int \<Rightarrow> py_error + int list" where
  "pad_sequence seq n pad_idx =
     (let var_len = int (length seq)
      in case new_full n pad_idx of
           Inl e \<Rightarrow> Inl e
         | Inr new_seq \<Rightarrow> assign_prefix new_seq var_len seq)"

text \<open>Lines 122 to 132: the loop over the lines of the source file.\<close>

fun src_loop ::
  "seq_vocabulary \<Rightarrow> bool \<Rightarrow> int \<Rightarrow> int \<Rightarrow> string list \<Rightarrow> int list list \<Rightarrow>
   py_error + (int list list \<times> seq_vocabulary)" where
  "src_loop src_vocab extend_vocab src_max src_pad_idx [] src_list = Inr (src_list, src_vocab)"
| "src_loop src_vocab extend_vocab src_max src_pad_idx (line # text) src_list =
     (case encode_tokens src_vocab extend_vocab line [] of
        Inl e \<Rightarrow> Inl e
      | Inr (seq, src_vocab') \<Rightarrow>
          (case pad_sequence seq src_max src_pad_idx of
             Inl e \<Rightarrow> Inl e
           | Inr new_seq \<Rightarrow>
               src_loop src_vocab' extend_vocab src_max src_pad_idx text (src_list @ [new_seq])))"

text \<open>
  Lines 137 to 153: the loop over the lines of the target file. The sequence starts with
  the start marker, the ids of the characters are appended, then the end marker.
\<close>

fun tgt_loop ::
  "seq_vocabulary \<Rightarrow> bool \<Rightarrow> int \<Rightarrow> int \<Rightarrow> int \<Rightarrow> int \<Rightarrow> string list \<Rightarrow> int list list \<Rightarrow>
   py_error + (int list list \<times> seq_vocabulary)" where
  "tgt_loop tgt_vocab extend_vocab tgt_max tgt_pad_idx tgt_sos_idx tgt_eos_idx [] tgt_list =
     Inr (tgt_list, tgt_vocab)"
| "tgt_loop tgt_vocab extend_vocab tgt_max tgt_pad_idx tgt_sos_idx tgt_eos_idx (line # text) tgt_list =
     (case encode_tokens tgt_vocab extend_vocab line [tgt_sos_idx] of
        Inl e \<Rightarrow> Inl e
      | Inr (seq0, tgt_vocab') \<Rightarrow>
          (let seq = seq0 @ [tgt_eos_idx]
           in case pad_sequence seq tgt_max tgt_pad_idx of
                Inl e \<Rightarrow> Inl e
              | Inr new_seq \<Rightarrow>
                  tgt_loop tgt_vocab' extend_vocab tgt_max tgt_pad_idx tgt_sos_idx tgt_eos_idx
                    text (tgt_list @ [new_seq])))"

text \<open>
  \<^verbatim>\<open>parallel_text_to_data(src_file, tgt_file, src_vocab, tgt_vocab, extend_vocab, device)\<close>.
  A file is the list of its lines, or \<open>None\<close> when the path does not exist; a vocabulary
  argument is \<open>None\<close> for Python's \<^verbatim>\<open>None\<close>. The two vocabularies are separate values (the
  script never passes one object for both). The result is the list of pairs, the two
  vocabularies as the loops leave them, and the two maxima.
\<close>

definition parallel_text_to_data ::
  "string list option \<Rightarrow> string list option \<Rightarrow> seq_vocabulary option \<Rightarrow> seq_vocabulary option \<Rightarrow>
   bool \<Rightarrow>
   py_error + ((int list \<times> int list) list \<times> seq_vocabulary \<times> seq_vocabulary \<times> int \<times> int)" where
  "parallel_text_to_data src_file tgt_file src_vocab tgt_vocab extend_vocab =
     (case src_file of
        None \<Rightarrow> Inl AssertionError
      | Some src_text \<Rightarrow>
     (case tgt_file of
        None \<Rightarrow> Inl AssertionError
      | Some tgt_text \<Rightarrow>
     (let src_vocab = (case src_vocab of None \<Rightarrow> SeqVocabulary_default | Some v \<Rightarrow> v);
          tgt_vocab = (case tgt_vocab of None \<Rightarrow> SeqVocabulary_default | Some v \<Rightarrow> v);
          src_max = max_length_loop src_text 0;
          tgt_max = max_length_loop tgt_text 0 + 2;
          src_pad_idx = pad_id src_vocab;
          tgt_pad_idx = pad_id tgt_vocab;
          tgt_eos_idx = eos_id tgt_vocab;
          tgt_sos_idx = sos_id tgt_vocab
      in case src_loop src_vocab extend_vocab src_max src_pad_idx src_text [] of
           Inl e \<Rightarrow> Inl e
         | Inr (src_list, src_vocab') \<Rightarrow>
        (case tgt_loop tgt_vocab extend_vocab tgt_max tgt_pad_idx tgt_sos_idx tgt_eos_idx
                tgt_text [] of
           Inl e \<Rightarrow> Inl e
         | Inr (tgt_list, tgt_vocab') \<Rightarrow>
             if length src_list \<noteq> length tgt_list then Inl AssertionError
             else Inr (zip src_list tgt_list, src_vocab', tgt_vocab', src_max, tgt_max)))))"

text \<open>
  The id of a character in a vocabulary: its entry in \<^verbatim>\<open>string_to_id\<close>, or the unknown id.
  This is what \<^verbatim>\<open>get_idx\<close> returns without extension; the claims on the encoders state
  the ids of a line in terms of the vocabulary an encoder returns.
\<close>

definition char_id :: "'a vocabulary_scheme \<Rightarrow> char \<Rightarrow> int" where
  "char_id v c = (case map_of (string_to_id v) [c] of None \<Rightarrow> unk_id v | Some i \<Rightarrow> i)"

section \<open>Tensors with a shape\<close>

text \<open>
  Where a shape can have a zero size or the rank matters, a tensor is its shape together
  with its cells in row-major order.
\<close>

record 'a tensor =
  shape :: "nat list"
  elems :: "'a list"

text \<open>\<^verbatim>\<open>t.shape[k]\<close>: a tuple index, out of range for a tensor of lower rank.\<close>

definition shape_at :: "'a tensor \<Rightarrow> nat \<Rightarrow> py_error + nat" where
  "shape_at t k = (if k < length (shape t) then Inr (shape t ! k) else Inl IndexError)"

text \<open>
  \<^verbatim>\<open>t[i]\<close> for an integer \<open>i\<close>: the \<open>i\<close>-th slice along the first dimension; a negative
  index counts from the end; a tensor of rank 0 and an index out of range raise.
\<close>

definition tensor_index :: "'a tensor \<Rightarrow> int \<Rightarrow> py_error + 'a tensor" where
  "tensor_index t i =
     (case shape t of
        [] \<Rightarrow> Inl IndexError
      | n # rest \<Rightarrow>
          (let j = (if i < 0 then i + int n else i);
               m = prod_list rest
           in if j < 0 \<or> int n \<le> j then Inl IndexError
              else Inr \<lparr>shape = rest, elems = take m (drop (nat j * m) (elems t))\<rparr>))"

text \<open>
  \<^verbatim>\<open>t[a:b]\<close>: the rows from \<open>a\<close> to \<open>b\<close> along the first dimension, bounds as in a Python
  slice.
\<close>

definition tensor_slice :: "'a tensor \<Rightarrow> int \<Rightarrow> int \<Rightarrow> py_error + 'a tensor" where
  "tensor_slice t a b =
     (case shape t of
        [] \<Rightarrow> Inl IndexError
      | n # rest \<Rightarrow>
          (let rows = py_slice [0..<n] a b;
               m = prod_list rest
           in Inr \<lparr>shape = length rows # rest,
                   elems = concat (map (\<lambda>r. take m (drop (r * m) (elems t))) rows)\<rparr>))"

text \<open>
  Broadcasting of two shapes, aligned at the last dimension: two sizes agree when they are
  equal or one of them is 1. \<open>None\<close> when the shapes cannot be broadcast.
\<close>

fun broadcast_rev :: "nat list \<Rightarrow> nat list \<Rightarrow> nat list option" where
  "broadcast_rev [] ys = Some ys"
| "broadcast_rev (x # xs) [] = Some (x # xs)"
| "broadcast_rev (x # xs) (y # ys) =
     (if x = y \<or> y = 1 then map_option ((#) x) (broadcast_rev xs ys)
      else if x = 1 then map_option ((#) y) (broadcast_rev xs ys)
      else None)"

definition broadcast_shapes :: "nat list \<Rightarrow> nat list \<Rightarrow> nat list option" where
  "broadcast_shapes a b = map_option rev (broadcast_rev (rev a) (rev b))"

text \<open>
  The cells of a tensor of shape \<open>s\<close> expanded to the shape \<open>t\<close> of the same rank: a
  dimension of size 1 is repeated.
\<close>

fun expand_cells :: "nat list \<Rightarrow> nat list \<Rightarrow> 'a list \<Rightarrow> 'a list" where
  "expand_cells (m # s) (n # t) xs =
     (let k = prod_list s;
          chunks = map (\<lambda>i. expand_cells s t (take k (drop (i * k) xs))) [0..<m]
      in if m = n then concat chunks else concat (replicate n (concat chunks)))"
| "expand_cells s t xs = xs"

definition expand_to :: "nat list \<Rightarrow> nat list \<Rightarrow> 'a list \<Rightarrow> 'a list" where
  "expand_to s t xs = expand_cells (replicate (length t - length s) 1 @ s) t xs"

text \<open>
  \<^verbatim>\<open>a == b\<close> on tensors: the elementwise comparison after broadcasting; shapes that cannot
  be broadcast raise.
\<close>

definition tensor_eq :: "'a tensor \<Rightarrow> 'a tensor \<Rightarrow> py_error + bool tensor" where
  "tensor_eq a b =
     (case broadcast_shapes (shape a) (shape b) of
        None \<Rightarrow> Inl RuntimeError
      | Some s \<Rightarrow>
          Inr \<lparr>shape = s,
               elems = map2 (=) (expand_to (shape a) s (elems a))
                                (expand_to (shape b) s (elems b))\<rparr>)"

section \<open>Accuracy (\<^verbatim>\<open>compute_accuracy\<close>)\<close>

text \<open>
  Line 369 tests \<^verbatim>\<open>(preds[i] == tgt_[i]).all\<close>: the attribute \<^verbatim>\<open>all\<close> is not called, so
  the condition is the truth value of a bound method object, which is true whatever the
  tensor holds.
\<close>

definition bound_method_truth :: "bool tensor \<Rightarrow> bool" where
  "bound_method_truth t = True"

text \<open>Lines 367 to 370: the loop over \<^verbatim>\<open>range(total)\<close>.\<close>

fun accuracy_loop :: "'a tensor \<Rightarrow> 'a tensor \<Rightarrow> int list \<Rightarrow> int \<Rightarrow> py_error + int" where
  "accuracy_loop preds tgt [] correct = Inr correct"
| "accuracy_loop preds tgt (i # rest) correct =
     (case tensor_index preds i of
        Inl e \<Rightarrow> Inl e
      | Inr p \<Rightarrow>
          (case tensor_index tgt i of
             Inl e \<Rightarrow> Inl e
           | Inr t \<Rightarrow>
               (case tensor_eq p t of
                  Inl e \<Rightarrow> Inl e
                | Inr c \<Rightarrow>
                    accuracy_loop preds tgt rest
                      (if bound_method_truth c then correct + 1 else correct))))"

text \<open>
  \<^verbatim>\<open>compute_accuracy(preds, tgt_)\<close>. The quotient \<^verbatim>\<open>correct/total\<close> is Python's true
  division of two integers, a real number here; dividing by zero raises. \<open>total_n\<close> is the
  variable \<^verbatim>\<open>total\<close>.
\<close>

definition compute_accuracy :: "'a tensor \<Rightarrow> 'a tensor \<Rightarrow> py_error + real" where
  "compute_accuracy preds tgt =
     (case shape_at tgt 0 of
        Inl e \<Rightarrow> Inl e
      | Inr total_n \<Rightarrow>
          (case accuracy_loop preds tgt (py_range (int total_n)) 0 of
             Inl e \<Rightarrow> Inl e
           | Inr correct \<Rightarrow>
               if total_n = 0 then Inl ZeroDivisionError
               else Inr (real_of_int correct / real total_n)))"

section \<open>Decoding (\<^verbatim>\<open>complete\<close>)\<close>

text \<open>
  The network is a parameter. \<^verbatim>\<open>LSTMModel.forward\<close> embeds the ids, runs the recurrent
  layers over the time steps and projects every step to a row of logits; on a batch of one
  lane that is one \<open>cell\<close> step per input id, from the state the previous step left.
  \<open>init_hidden\<close> is \<^verbatim>\<open>model.init_hidden(1)\<close>. Ids outside the embedding table are not
  modelled: the script builds the model with as many classes as the vocabulary has entries.
\<close>

record ('st, 'l) lstm_model =
  init_hidden :: 'st
  cell :: "int \<Rightarrow> 'st \<Rightarrow> 'l \<times> 'st"

text \<open>
  The two ways of choosing an id from a row of logits \<open>l\<close>, parameters as well:
  \<open>topk1 l\<close> is the index \<^verbatim>\<open>torch.topk(F.softmax(l), k=1)\<close> returns and \<open>multinomial1 l g\<close>
  the index \<^verbatim>\<open>torch.multinomial(F.softmax(l), num_samples=1)\<close> draws with the generator in
  state \<open>g\<close>, together with the generator's next state.
\<close>

record ('l, 'g) torch_ops =
  topk1 :: "'l \<Rightarrow> int"
  multinomial1 :: "'l \<Rightarrow> 'g \<Rightarrow> int \<times> 'g"

fun forward :: "('st, 'l) lstm_model \<Rightarrow> int list \<Rightarrow> 'st \<Rightarrow> 'l list \<times> 'st" where
  "forward model [] state = ([], state)"
| "forward model (x # xs) state =
     (let (l, state') = cell model x state;
          (ls, state'') = forward model xs state'
      in (l # ls, state''))"

text \<open>
  Lines 216 to 219: the prompt is encoded by subscripting \<^verbatim>\<open>string_to_id\<close> directly, not
  through \<^verbatim>\<open>get_idx\<close>.
\<close>

fun encode_prompt :: "'a vocabulary_scheme \<Rightarrow> string \<Rightarrow> int list \<Rightarrow> py_error + int list" where
  "encode_prompt vocab [] prompt_list = Inr prompt_list"
| "encode_prompt vocab (c # cs) prompt_list =
     (case dict_get (string_to_id vocab) [c] of
        Inl e \<Rightarrow> Inl e
      | Inr i \<Rightarrow> encode_prompt vocab cs (prompt_list @ [i]))"

text \<open>
  The value of the variable \<^verbatim>\<open>x\<close> fed to the model: a tensor holding one id, or, after
  \<^verbatim>\<open>.item()\<close> in the sampling branch of the loop, a Python integer, which the embedding
  layer refuses with a \<^verbatim>\<open>TypeError\<close>.
\<close>

datatype model_input = TensorInput int | IntInput int

text \<open>Lines 235 to 243: the decoding loop, \<open>k\<close> iterations left.\<close>

fun decode_loop ::
  "'a vocabulary_scheme \<Rightarrow> ('st, 'l) lstm_model \<Rightarrow> ('l, 'g) torch_ops \<Rightarrow> bool \<Rightarrow> nat \<Rightarrow>
   model_input \<Rightarrow> 'st \<Rightarrow> 'g \<Rightarrow> string list \<Rightarrow> py_error + string list" where
  "decode_loop vocab model ops sample 0 x state g out_list = Inr out_list"
| "decode_loop vocab model ops sample (Suc k) x state g out_list =
     (case x of
        IntInput i \<Rightarrow> Inl TypeError
      | TensorInput i \<Rightarrow>
          (let (logits, state') = cell model i state
           in if sample then
                (let (ix, g') = multinomial1 ops logits g
                 in case dict_get (id_to_string vocab) ix of
                      Inl e \<Rightarrow> Inl e
                    | Inr s \<Rightarrow>
                        decode_loop vocab model ops sample k (IntInput ix) state' g'
                          (out_list @ [s]))
              else
                (let ix = topk1 ops logits
                 in case dict_get (id_to_string vocab) ix of
                      Inl e \<Rightarrow> Inl e
                    | Inr s \<Rightarrow>
                        decode_loop vocab model ops sample k (TensorInput ix) state' g
                          (out_list @ [s]))))"

text \<open>
  Lines 212 to 243, everything but the final join: the list \<^verbatim>\<open>out_list\<close> of decoded token
  strings. \<open>vocab\<close> is the global \<^verbatim>\<open>my_data.vocab\<close>, \<open>g\<close> the state of the random
  generator. An empty prompt makes \<^verbatim>\<open>torch.tensor([])\<close> a tensor of floats, which the
  embedding layer refuses with a \<^verbatim>\<open>RuntimeError\<close>. \<^verbatim>\<open>range(steps)\<close> is empty for a
  negative \<open>steps\<close>.
\<close>

definition complete_out_list ::
  "'a vocabulary_scheme \<Rightarrow> ('st, 'l) lstm_model \<Rightarrow> ('l, 'g) torch_ops \<Rightarrow> 'g \<Rightarrow> string \<Rightarrow> int \<Rightarrow>
   bool \<Rightarrow> py_error + string list" where
  "complete_out_list vocab model ops g prompt steps sample =
     (case encode_prompt vocab prompt [] of
        Inl e \<Rightarrow> Inl e
      | Inr prompt_list \<Rightarrow>
          if prompt_list = [] then Inl RuntimeError
          else
            (let (logits, state) = forward model prompt_list (init_hidden model);
                 (ix, g') = (if sample then multinomial1 ops (last logits) g
                             else (topk1 ops (last logits), g))
             in case dict_get (id_to_string vocab) ix of
                  Inl e \<Rightarrow> Inl e
                | Inr s \<Rightarrow>
                    decode_loop vocab model ops sample (nat steps) (TensorInput ix) state g' [s]))"

text \<open>\<^verbatim>\<open>complete(model, prompt, steps, sample)\<close>: line 244 joins the list.\<close>

definition complete ::
  "'a vocabulary_scheme \<Rightarrow> ('st, 'l) lstm_model \<Rightarrow> ('l, 'g) torch_ops \<Rightarrow> 'g \<Rightarrow> string \<Rightarrow> int \<Rightarrow>
   bool \<Rightarrow> py_error + string" where
  "complete vocab model ops g prompt steps sample =
     (case complete_out_list vocab model ops g prompt steps sample of
        Inl e \<Rightarrow> Inl e
      | Inr out_list \<Rightarrow> Inr (concat out_list))"

section \<open>Training loop: carrying the recurrent state (lines 278 to 290)\<close>

text \<open>\<^verbatim>\<open>custom_detach(h, c)\<close> cuts the gradient history and keeps the values.\<close>

definition custom_detach :: "'a tensor \<times> 'a tensor \<Rightarrow> 'a tensor \<times> 'a tensor" where
  "custom_detach hc = (fst hc, snd hc)"

text \<open>
  One pass of the inner loop up to the forward call. The variables of the script are
  \<^verbatim>\<open>state_h\<close> and \<^verbatim>\<open>state_c\<close>; line 289 reads a variable \<^verbatim>\<open>state\<close>, which no line of the
  script binds, so evaluating its right-hand side raises \<^verbatim>\<open>NameError\<close>. The forward pass
  \<open>model\<close> is a parameter.
\<close>

definition train_step ::
  "(int tensor \<Rightarrow> 'a tensor \<times> 'a tensor \<Rightarrow> py_error + ('o \<times> 'a tensor \<times> 'a tensor)) \<Rightarrow>
   'a tensor \<times> 'a tensor \<Rightarrow> int tensor \<Rightarrow> py_error + ('o \<times> 'a tensor \<times> 'a tensor)" where
  "train_step model st batch =
     (let (state_h, state_c) = custom_detach st
      in case tensor_slice batch 0 (- 1) of
           Inl e \<Rightarrow> Inl e
         | Inr input \<Rightarrow>
             (case shape_at input 1 of
                Inl e \<Rightarrow> Inl e
              | Inr bsz \<Rightarrow>
                  (case shape_at state_h 1 of
                     Inl e \<Rightarrow> Inl e
                   | Inr prev_bsz \<Rightarrow>
                       if bsz \<noteq> prev_bsz then Inl NameError
                       else model input (state_h, state_c))))"

section \<open>Lemmas on dictionaries and the vocabulary\<close>

lemma dict_set_absent:
  "map_of d k = None \<Longrightarrow> dict_set k v d = d @ [(k, v)]"
  by (induction d) (auto simp: dict_set_def)

lemma map_of_flip_dict:
  assumes "distinct (map fst d)" and "map_of (flip_dict d) s = Some i"
  shows "map_of d i = Some s"
proof -
  have "(s, i) \<in> set (flip_dict d)"
    using assms(2) by (rule map_of_SomeD)
  then have "(i, s) \<in> set d"
    by (auto simp: flip_dict_def)
  then show ?thesis
    using assms(1) by simp
qed

lemma map_of_flip_dict_None:
  assumes "map_of (flip_dict d) s = None"
  shows "s \<notin> snd ` set d"
proof -
  have "s \<notin> fst ` set (flip_dict d)"
    using assms by (simp add: map_of_eq_None_iff)
  moreover have "fst ` set (flip_dict d) = snd ` set d"
    by (force simp: flip_dict_def)
  ultimately show ?thesis by simp
qed

lemma vocab_inv_keys_distinct:
  "vocab_inv v \<Longrightarrow> distinct (map fst (id_to_string v))"
  by (simp add: vocab_inv_def distinct_map inj_on_def)

lemma vocab_inv_len_absent:
  "vocab_inv v \<Longrightarrow> map_of (id_to_string v) (int (length (id_to_string v))) = None"
proof -
  assume "vocab_inv v"
  then have "fst ` set (id_to_string v) = int ` {0..<length (id_to_string v)}"
    by (metis vocab_inv_def set_map set_upt)
  then have "int (length (id_to_string v)) \<notin> fst ` set (id_to_string v)"
    by auto
  then show ?thesis
    by (simp add: map_of_eq_None_iff)
qed

lemma Vocabulary_default_inv: "vocab_inv Vocabulary_default"
  by (simp add: vocab_inv_def Vocabulary_default_def Vocabulary_def dict_set_def flip_dict_def
      upt_rec)

lemma add_new_word_inv:
  assumes "vocab_inv v" and "map_of (string_to_id v) s = None"
  shows "vocab_inv (add_new_word v s)"
    and "id_to_string (add_new_word v s) =
           id_to_string v @ [(int (length (id_to_string v)), s)]"
    and "string_to_id (add_new_word v s) =
           string_to_id v @ [(s, int (length (id_to_string v)))]"
proof -
  let ?n = "int (length (id_to_string v))"
  have len: "length (string_to_id v) = length (id_to_string v)"
    using assms(1) by (simp add: vocab_inv_def flip_dict_def)
  have s2i: "string_to_id (add_new_word v s) = string_to_id v @ [(s, ?n)]"
    using assms(2) len by (simp add: add_new_word_def Let_def dict_len_def dict_set_absent)
  have i2s: "id_to_string (add_new_word v s) = id_to_string v @ [(?n, s)]"
    using vocab_inv_len_absent[OF assms(1)]
    by (simp add: add_new_word_def Let_def dict_len_def dict_set_absent)
  have fresh: "s \<notin> snd ` set (id_to_string v)"
    using assms map_of_flip_dict_None[of "id_to_string v" s] by (simp add: vocab_inv_def)
  show "vocab_inv (add_new_word v s)"
    using assms(1) fresh unfolding vocab_inv_def s2i i2s
    by (simp add: flip_dict_def)
  show "id_to_string (add_new_word v s) = id_to_string v @ [(?n, s)]" by (rule i2s)
  show "string_to_id (add_new_word v s) = string_to_id v @ [(s, ?n)]" by (rule s2i)
qed

lemma map_of_append_new:
  "map_of d k = None \<Longrightarrow> map_of (d @ [(k, v)]) k = Some v"
  by (simp add: map_add_def)

lemma map_of_append_old:
  "map_of d k = Some v \<Longrightarrow> map_of (d @ e) k = Some v"
  by (simp add: map_add_def)

lemma get_idx_extend_inv:
  assumes "vocab_inv v"
  shows "\<exists>i v' ext. get_idx v [c] True = Inr (i, v') \<and> vocab_inv v' \<and>
           id_to_string v' = id_to_string v @ ext \<and>
           map_of (id_to_string v') i = Some [c]"
proof (cases "map_of (string_to_id v) [c]")
  case None
  let ?n = "int (length (id_to_string v))"
  let ?v = "add_new_word v [c]"
  note new = add_new_word_inv[OF assms None]
  have "map_of (string_to_id ?v) [c] = Some ?n"
    unfolding new(3) using None by (rule map_of_append_new)
  then have "get_idx v [c] True = Inr (?n, ?v)"
    using None by (simp add: get_idx_def dict_contains_def dict_get_def Let_def)
  moreover have "map_of (id_to_string ?v) ?n = Some [c]"
    unfolding new(2) using vocab_inv_len_absent[OF assms] by (rule map_of_append_new)
  ultimately show ?thesis
    using new(1) new(2) by blast
next
  case (Some i)
  have "map_of (flip_dict (id_to_string v)) [c] = Some i"
    using Some assms by (simp add: vocab_inv_def)
  then have "map_of (id_to_string v) i = Some [c]"
    using vocab_inv_keys_distinct[OF assms] by (rule map_of_flip_dict[rotated])
  moreover have "get_idx v [c] True = Inr (i, v)"
    using Some by (simp add: get_idx_def dict_contains_def dict_get_def)
  moreover have "id_to_string v = id_to_string v @ []"
    by simp
  ultimately show ?thesis
    using assms by blast
qed

lemma encode_tokens_extend_inv:
  assumes "vocab_inv v"
  shows "\<exists>ids v' ext. encode_tokens v True S acc = Inr (acc @ ids, v') \<and> vocab_inv v' \<and>
           id_to_string v' = id_to_string v @ ext \<and>
           map (map_of (id_to_string v')) ids = map (\<lambda>c. Some [c]) S"
  using assms
proof (induction S arbitrary: v acc)
  case Nil
  have "id_to_string v = id_to_string v @ []"
    by simp
  then show ?case
    using Nil by fastforce
next
  case (Cons c S)
  obtain i v1 ext1 where step: "get_idx v [c] True = Inr (i, v1)" "vocab_inv v1"
      "id_to_string v1 = id_to_string v @ ext1" "map_of (id_to_string v1) i = Some [c]"
    using get_idx_extend_inv[OF Cons.prems] by blast
  obtain ids v' ext' where rest: "encode_tokens v1 True S (acc @ [i]) = Inr ((acc @ [i]) @ ids, v')"
      "vocab_inv v'" "id_to_string v' = id_to_string v1 @ ext'"
      "map (map_of (id_to_string v')) ids = map (\<lambda>c. Some [c]) S"
    using Cons.IH[OF step(2)] by blast
  have "encode_tokens v True (c # S) acc = Inr (acc @ (i # ids), v')"
    using step(1) rest(1) by simp
  moreover have "id_to_string v' = id_to_string v @ (ext1 @ ext')"
    using step(3) rest(3) by simp
  moreover have "map_of (id_to_string v') i = Some [c]"
    unfolding rest(3) using step(4) by (rule map_of_append_old)
  ultimately show ?case
    using rest(2) rest(4) by fastforce
qed

section \<open>Claims on the vocabulary\<close>

text \<open>
  C7. On a vocabulary of any content, looking up with \<^verbatim>\<open>extend_vocab=False\<close> a string that
  is not a key of \<^verbatim>\<open>string_to_id\<close> (it was never added) returns the unknown id, raises
  nothing (the result is \<open>Inr\<close>), and returns the vocabulary as it was: both dictionaries
  keep their size and their entries.
\<close>

theorem get_idx_closed_unknown:
  assumes "map_of (string_to_id v) s = None"
  shows "get_idx v s False = Inr (unk_id v, v)"
  using assms by (simp add: get_idx_def dict_contains_def)

theorem get_idx_closed_unknown_witness:
  "map_of (string_to_id Vocabulary_default) ''q'' = None \<and>
   get_idx Vocabulary_default ''q'' False = Inr (1, Vocabulary_default)"
proof -
  have h: "map_of (string_to_id Vocabulary_default) ''q'' = None"
    by (simp add: Vocabulary_default_def Vocabulary_def dict_set_def)
  have u: "unk_id Vocabulary_default = 1"
    by (simp add: Vocabulary_default_def Vocabulary_def)
  show ?thesis
    using h get_idx_closed_unknown[OF h] u by simp
qed

text \<open>
  C6. Round trip. On a vocabulary that satisfies the invariant (the one \<^verbatim>\<open>Vocabulary()\<close>
  builds does, and extension keeps it), encoding every character of a string \<open>S\<close> through
  \<^verbatim>\<open>get_idx\<close> with \<^verbatim>\<open>extend_vocab=True\<close> raises nothing and gives one id per character;
  reading every id back in \<^verbatim>\<open>id_to_string\<close> of the resulting vocabulary gives the
  characters of \<open>S\<close> in order, whose concatenation is \<open>S\<close>.
\<close>

theorem vocabulary_round_trip:
  assumes "vocab_inv v"
  shows "\<exists>ids v'. encode_tokens v True S [] = Inr (ids, v') \<and>
           length ids = length S \<and>
           map (dict_get (id_to_string v')) ids = map (\<lambda>c. Inr [c]) S \<and>
           concat (map (\<lambda>c. [c]) S) = S"
proof -
  obtain ids v' where enc: "encode_tokens v True S [] = Inr (ids, v')"
      and dec: "map (map_of (id_to_string v')) ids = map (\<lambda>c. Some [c]) S"
    using encode_tokens_extend_inv[OF assms, of S "[]"] by auto
  have len: "length ids = length S"
    using dec by (metis length_map)
  have "\<forall>k < length ids. dict_get (id_to_string v') (ids ! k) = Inr [S ! k]"
  proof (intro allI impI)
    fix k assume k: "k < length ids"
    then have "map (map_of (id_to_string v')) ids ! k = map (\<lambda>c. Some [c]) S ! k"
      using dec by simp
    then have "map_of (id_to_string v') (ids ! k) = Some [S ! k]"
      using k len by simp
    then show "dict_get (id_to_string v') (ids ! k) = Inr [S ! k]"
      by (simp add: dict_get_def)
  qed
  then have "map (dict_get (id_to_string v')) ids = map (\<lambda>c. Inr [c]) S"
    using len by (simp add: list_eq_iff_nth_eq)
  moreover have "concat (map (\<lambda>c. [c]) S) = S"
    by (induction S) simp_all
  ultimately show ?thesis
    using enc len by blast
qed

theorem vocabulary_round_trip_witness:
  "vocab_inv Vocabulary_default \<and>
   (\<exists>ids v'. encode_tokens Vocabulary_default True ''ab'' [] = Inr (ids, v') \<and>
      length ids = length ''ab'' \<and>
      map (dict_get (id_to_string v')) ids = map (\<lambda>c. Inr [c]) ''ab'' \<and>
      concat (map (\<lambda>c. [c]) ''ab'') = ''ab'')"
  using Vocabulary_default_inv vocabulary_round_trip[OF Vocabulary_default_inv, of "''ab''"]
  by blast

section \<open>Lemmas on the batcher\<close>

lemma py_slice_nonneg:
  assumes "0 \<le> a" and "0 \<le> b"
  shows "py_slice xs a b = drop (nat a) (take (nat b) xs)"
proof -
  have t: "take (nat (min b (int (length xs)))) xs = take (nat b) xs"
    by (cases "b \<le> int (length xs)") (simp_all add: min_def)
  have "drop (nat (min a (int (length xs)))) (take (nat b) xs) = drop (nat a) (take (nat b) xs)"
  proof (cases "a \<le> int (length xs)")
    case True
    then show ?thesis
      by (simp add: min_def)
  next
    case False
    then have "length (take (nat b) xs) \<le> nat a"
      by simp
    then show ?thesis
      using False by (simp add: min_def)
  qed
  then show ?thesis
    using assms t by (simp add: py_slice_def Let_def)
qed

lemma segment_len_bounds:
  assumes "0 < (bsz::int)" and "0 \<le> L"
  shows "L < (L div bsz + 1) * bsz" and "0 < L div bsz + 1"
proof -
  have "L = bsz * (L div bsz) + L mod bsz"
    by simp
  moreover have "L mod bsz < bsz"
    using assms(1) by simp
  ultimately have "L < bsz * (L div bsz) + bsz"
    by linarith
  then show "L < (L div bsz + 1) * bsz"
    by (simp add: algebra_simps)
  have "0 \<le> L div bsz"
    using assms by (simp add: pos_imp_zdiv_nonneg_iff)
  then show "0 < L div bsz + 1"
    by simp
qed

lemma padded_flat_pos:
  assumes "0 < bsz"
  shows "padded_flat input_data bsz pad =
           Inr (input_data @
                replicate (nat ((int (length input_data) div bsz + 1) * bsz) - length input_data) pad)"
proof -
  let ?L = "int (length input_data)"
  let ?n = "(?L div bsz + 1) * bsz"
  have lt: "?L < ?n"
    using segment_len_bounds(1)[OF assms, of ?L] by simp
  then have n0: "\<not> ?n < 0"
    by linarith
  have le: "length input_data \<le> nat ?n"
    using lt by linarith
  have slot: "py_slice (replicate (nat ?n) pad) 0 ?L = replicate (length input_data) pad"
    using le by (simp add: py_slice_nonneg min_def)
  have "assign_prefix (replicate (nat ?n) pad) ?L input_data =
          Inr (input_data @ replicate (nat ?n - length input_data) pad)"
    unfolding assign_prefix_def slot by (simp add: Let_def)
  then show ?thesis
    using assms n0 by (simp add: padded_flat_def segment_len_of_def new_full_def Let_def)
qed

lemma padded_grid_pos:
  assumes "0 < bsz" and "padded_flat input_data bsz pad = Inr flat"
  shows "padded_grid input_data bsz pad =
           Inr (map (\<lambda>t. map (\<lambda>b. flat ! (b * nat (int (length input_data) div bsz + 1) + t))
                            [0..<nat bsz])
                    [0..<nat (int (length input_data) div bsz + 1)])"
proof -
  let ?S = "int (length input_data) div bsz + 1"
  have S0: "0 < ?S"
    using segment_len_bounds(2)[OF assms(1), of "int (length input_data)"] by simp
  have flat: "flat = input_data @ replicate (nat (?S * bsz) - length input_data) pad"
    using assms padded_flat_pos[OF assms(1), of input_data pad] by simp
  have "length input_data \<le> nat (?S * bsz)"
    using segment_len_bounds(1)[OF assms(1), of "int (length input_data)"] by linarith
  then have len: "length flat = nat (?S * bsz)"
    using flat by simp
  have prod: "nat (?S * bsz) = nat bsz * nat ?S"
    using assms(1) S0 by (simp add: nat_mult_distrib mult.commute)
  have lenint: "int (length flat) = bsz * ?S"
    using len assms(1) S0 by (simp add: mult.commute)
  have view: "view2 flat bsz ?S = Inr (map (\<lambda>i. take (nat ?S) (drop (i * nat ?S) flat)) [0..<nat bsz])"
    using assms(1) S0 lenint by (simp add: view2_def)
  have cell: "take (nat ?S) (drop (b * nat ?S) flat) ! t = flat ! (b * nat ?S + t)"
    if "b < nat bsz" and "t < nat ?S" for b t
  proof -
    have "b * nat ?S + nat ?S \<le> nat bsz * nat ?S"
      using that(1) by (metis Suc_leI mult_Suc mult_le_mono1 add.commute)
    then have "b * nat ?S + t < length flat"
      using that(2) len prod by linarith
    then show ?thesis
      using that(2) by simp
  qed
  have row: "map (\<lambda>r. r ! t) (map (\<lambda>i. take (nat ?S) (drop (i * nat ?S) flat)) [0..<nat bsz]) =
               map (\<lambda>b. flat ! (b * nat ?S + t)) [0..<nat bsz]" if "t < nat ?S" for t
    unfolding map_map comp_def
  proof (rule map_cong[OF refl])
    fix b assume "b \<in> set [0..<nat bsz]"
    then have "b < nat bsz"
      by simp
    then show "take (nat ?S) (drop (b * nat ?S) flat) ! t = flat ! (b * nat ?S + t)"
      using that by (rule cell)
  qed
  have "tensor_t (map (\<lambda>i. take (nat ?S) (drop (i * nat ?S) flat)) [0..<nat bsz]) ?S =
          map (\<lambda>t. map (\<lambda>b. flat ! (b * nat ?S + t)) [0..<nat bsz]) [0..<nat ?S]"
    unfolding tensor_t_def
  proof (rule map_cong[OF refl])
    fix t assume "t \<in> set [0..<nat ?S]"
    then have "t < nat ?S"
      by simp
    then show "map (\<lambda>r. r ! t) (map (\<lambda>i. take (nat ?S) (drop (i * nat ?S) flat)) [0..<nat bsz]) =
               map (\<lambda>b. flat ! (b * nat ?S + t)) [0..<nat bsz]"
      by (rule row)
  qed
  then show ?thesis
    using assms view by (simp add: padded_grid_def segment_len_of_def)
qed

lemma batch_at_nonneg:
  assumes "0 \<le> bsz"
  shows "batch_at padded bsz bptt_len pad i =
           Inr (if i = 0 then replicate (nat bsz) pad # py_slice padded 0 bptt_len
                else py_slice padded (i * bptt_len - 1) ((i + 1) * bptt_len))"
  using assms by (simp add: batch_at_def new_full_def)

lemma batch_loop_nonneg:
  assumes "0 \<le> bsz"
  shows "batch_loop padded bsz bptt_len pad idxs batches =
           Inr (batches @
                map (\<lambda>i. if i = 0 then replicate (nat bsz) pad # py_slice padded 0 bptt_len
                          else py_slice padded (i * bptt_len - 1) ((i + 1) * bptt_len)) idxs)"
  by (induction idxs arbitrary: batches) (simp_all add: batch_at_nonneg[OF assms])

text \<open>The windows over a grid \<open>g\<close> with window length \<open>w\<close>, by natural-number indices.\<close>

lemma create_batch_windows:
  assumes "0 < bsz" and "0 < bptt_len" and "padded_grid input_data bsz pad = Inr g"
  shows "create_batch input_data bsz bptt_len pad =
           Inr (map (\<lambda>k. if k = 0 then replicate (nat bsz) pad # take (nat bptt_len) g
                          else drop (k * nat bptt_len - 1) (take (Suc k * nat bptt_len) g))
                    [0..<nat ((int (length input_data) div bsz + 1) div bptt_len + 1)])"
proof -
  let ?S = "int (length input_data) div bsz + 1"
  let ?n = "?S div bptt_len + 1"
  let ?win = "\<lambda>i. if i = 0 then replicate (nat bsz) pad # py_slice g 0 bptt_len
                   else py_slice g (i * bptt_len - 1) ((i + 1) * bptt_len)"
  have "create_batch input_data bsz bptt_len pad = Inr (map ?win (py_range ?n))"
    using assms batch_loop_nonneg[of bsz g bptt_len pad "py_range ?n" "[]"]
    by (simp add: create_batch_def segment_len_of_def num_batches_of_def)
  moreover have "?win (int k) =
      (if k = 0 then replicate (nat bsz) pad # take (nat bptt_len) g
       else drop (k * nat bptt_len - 1) (take (Suc k * nat bptt_len) g))" for k
  proof (cases "k = 0")
    case True
    then show ?thesis
      using assms(2) by (simp add: py_slice_nonneg)
  next
    case False
    then have k1: "1 \<le> int k"
      by simp
    have lo: "0 \<le> int k * bptt_len - 1"
      using k1 assms(2) by (smt (verit) mult_le_cancel_right1)
    have hi: "0 \<le> (int k + 1) * bptt_len"
      using assms(2) by simp
    have "nat (int k * bptt_len - 1) = k * nat bptt_len - 1"
      using assms(2) by (simp add: nat_diff_distrib' nat_mult_distrib)
    moreover have "nat ((int k + 1) * bptt_len) = Suc k * nat bptt_len"
      using assms(2) by (simp add: nat_mult_distrib nat_add_distrib)
    ultimately show ?thesis
      using False py_slice_nonneg[OF lo hi, of g] by simp
  qed
  ultimately show ?thesis
    by (simp add: py_range_def comp_def)
qed

text \<open>
  Facts about lists of overlapping windows, for any list of rows \<open>g\<close>, any first row \<open>p\<close>
  and any window length \<open>w > 0\<close>. Window \<open>k\<close> without its first row is the slice of \<open>g\<close>
  from \<open>k * w\<close> to \<open>(k + 1) * w\<close>.
\<close>

lemma window_tl:
  assumes "0 < (w::nat)"
  shows "tl (if k = 0 then p # take w g else drop (k * w - 1) (take (Suc k * w) g)) =
           drop (k * w) (take (Suc k * w) g)"
proof (cases "k = 0")
  case True
  then show ?thesis by simp
next
  case False
  then have "Suc (k * w - 1) = k * w"
    using assms by simp
  then have "tl (drop (k * w - 1) (take (Suc k * w) g)) = drop (k * w) (take (Suc k * w) g)"
    by (metis drop_Suc tl_drop)
  then show ?thesis
    using False by simp
qed

lemma concat_slices:
  "concat (map (\<lambda>k. drop (k * w) (take (Suc k * w) g)) [0..<n]) = take (n * w) (g::'a list)"
proof (induction n)
  case 0
  then show ?case by simp
next
  case (Suc n)
  have "take (n * w) g = take (n * w) (take (Suc n * w) g)"
    by (simp add: min_def)
  then have "take (n * w) g @ drop (n * w) (take (Suc n * w) g) = take (Suc n * w) g"
    by (metis append_take_drop_id)
  then show ?case
    using Suc by simp
qed

lemma length_less_windows:
  assumes "0 < (w::nat)"
  shows "m < Suc (m div w) * w"
  using assms by (metis dividend_less_times_div mult.commute mult_Suc)

lemma concat_tl_windows:
  assumes "0 < (w::nat)"
  shows "concat (map tl (map (\<lambda>k. if k = 0 then p # take w g
                                    else drop (k * w - 1) (take (Suc k * w) g))
                             [0..<Suc (length g div w)])) = g"
proof -
  have "concat (map tl (map (\<lambda>k. if k = 0 then p # take w g
                                    else drop (k * w - 1) (take (Suc k * w) g))
                             [0..<Suc (length g div w)])) =
        concat (map (\<lambda>k. drop (k * w) (take (Suc k * w) g)) [0..<Suc (length g div w)])"
    unfolding map_map comp_def using window_tl[OF assms] by metis
  also have "\<dots> = take (Suc (length g div w) * w) g"
    by (rule concat_slices)
  also have "\<dots> = g"
    using length_less_windows[OF assms, of "length g"] by simp
  finally show ?thesis .
qed

lemma window_overlap:
  assumes "0 < (w::nat)" and "1 \<le> i" and "i \<le> length g div w"
  shows "drop (i * w - 1) (take (Suc i * w) g) \<noteq> []"
    and "hd (drop (i * w - 1) (take (Suc i * w) g)) = g ! (i * w - 1)"
    and "last (if i - 1 = 0 then p # take w g
               else drop ((i - 1) * w - 1) (take (Suc (i - 1) * w) g)) = g ! (i * w - 1)"
proof -
  define n where "n = i * w"
  have iw: "n \<le> length g"
    using assms(1,3) by (simp add: n_def less_eq_div_iff_mult_less_eq)
  have pos: "0 < n"
    using assms(1,2) by (simp add: n_def)
  have sn: "Suc i * w = w + n"
    by (simp add: n_def)
  have pn: "(i - 1) * w = n - w"
    by (simp add: n_def diff_mult_distrib)
  have "n - 1 < min (length g) (w + n)"
    using iw pos by arith
  then have lt: "n - 1 < length (take (w + n) g)"
    by (simp only: length_take)
  have a: "drop (n - 1) (take (w + n) g) \<noteq> []"
    using lt by (metis drop_eq_Nil leD)
  have n1: "n - 1 < w + n" and n2: "n - 1 < n"
    using pos by arith+
  have "hd (drop (n - 1) (take (w + n) g)) = take (w + n) g ! (n - 1)"
    using lt by (rule hd_drop_conv_nth)
  also have "\<dots> = g ! (n - 1)"
    using n1 by (rule nth_take)
  finally have b: "hd (drop (n - 1) (take (w + n) g)) = g ! (n - 1)" .
  have len: "length (take n g) = n"
    using iw by simp
  have ne: "take n g \<noteq> []"
    using len pos by (metis length_0_conv less_numeral_extra(3))
  have "last (take n g) = take n g ! (length (take n g) - 1)"
    using ne by (rule last_conv_nth)
  also have "\<dots> = take n g ! (n - 1)"
    unfolding len ..
  also have "\<dots> = g ! (n - 1)"
    using n2 by (rule nth_take)
  finally have lastk: "last (take n g) = g ! (n - 1)" .
  have c: "last (if i - 1 = 0 then p # take w g
                 else drop ((i - 1) * w - 1) (take (Suc (i - 1) * w) g)) = g ! (n - 1)"
  proof (cases "i - 1 = 0")
    case True
    then have "n = w"
      using assms(2) by (simp add: n_def)
    then have "last (p # take w g) = g ! (n - 1)"
      using ne lastk by (metis last_ConsR)
    then show ?thesis
      using True by simp
  next
    case False
    have s: "Suc (i - 1) * w = n"
      using assms(2) by (simp add: n_def)
    have "n - w - 1 < n"
      using pos by arith
    then have "n - w - 1 < length (take n g)"
      unfolding len .
    then have "last (drop (n - w - 1) (take n g)) = last (take n g)"
      by (rule last_drop)
    then have "last (drop ((i - 1) * w - 1) (take (Suc (i - 1) * w) g)) = g ! (n - 1)"
      unfolding s pn using lastk by (rule trans)
    then show ?thesis
      using False by simp
  qed
  show "drop (i * w - 1) (take (Suc i * w) g) \<noteq> []"
    using a unfolding sn n_def .
  show "hd (drop (i * w - 1) (take (Suc i * w) g)) = g ! (i * w - 1)"
    using b unfolding sn n_def .
  show "last (if i - 1 = 0 then p # take w g
              else drop ((i - 1) * w - 1) (take (Suc (i - 1) * w) g)) = g ! (i * w - 1)"
    using c unfolding n_def .
qed

section \<open>Claims on the batcher\<close>

lemma create_batch_pos:
  assumes "0 < bsz" and "0 < bptt_len"
  shows "\<exists>flat g.
           padded_flat input_data bsz pad = Inr flat \<and>
           flat = input_data @ replicate (length flat - length input_data) pad \<and>
           int (length flat) = bsz * (int (length input_data) div bsz + 1) \<and>
           padded_grid input_data bsz pad = Inr g \<and>
           g = map (\<lambda>t. map (\<lambda>b. flat ! (b * length g + t)) [0..<nat bsz]) [0..<length g] \<and>
           int (length g) = int (length input_data) div bsz + 1 \<and>
           create_batch input_data bsz bptt_len pad =
             Inr (map (\<lambda>k. if k = 0 then replicate (nat bsz) pad # take (nat bptt_len) g
                            else drop (k * nat bptt_len - 1) (take (Suc k * nat bptt_len) g))
                      [0..<Suc (length g div nat bptt_len)])"
proof -
  let ?L = "int (length input_data)"
  let ?S = "?L div bsz + 1"
  define flat where "flat = input_data @ replicate (nat (?S * bsz) - length input_data) pad"
  define g where "g = map (\<lambda>t. map (\<lambda>b. flat ! (b * nat ?S + t)) [0..<nat bsz]) [0..<nat ?S]"
  have S0: "0 < ?S"
    using segment_len_bounds(2)[OF assms(1), of ?L] by simp
  have pf: "padded_flat input_data bsz pad = Inr flat"
    unfolding flat_def by (rule padded_flat_pos[OF assms(1)])
  have le: "length input_data \<le> nat (?S * bsz)"
    using segment_len_bounds(1)[OF assms(1), of ?L] by linarith
  then have lenflat: "length flat = nat (?S * bsz)"
    by (simp add: flat_def)
  have f1: "flat = input_data @ replicate (length flat - length input_data) pad"
    unfolding lenflat by (rule flat_def)
  have f2: "int (length flat) = bsz * ?S"
    using lenflat assms(1) S0 by (simp add: mult.commute)
  have pg: "padded_grid input_data bsz pad = Inr g"
    unfolding g_def by (rule padded_grid_pos[OF assms(1) pf])
  have leng: "length g = nat ?S"
    by (simp add: g_def)
  have g1: "g = map (\<lambda>t. map (\<lambda>b. flat ! (b * length g + t)) [0..<nat bsz]) [0..<length g]"
    unfolding leng by (rule g_def)
  have g2: "int (length g) = ?S"
    using leng S0 by simp
  have "nat (?S div bptt_len + 1) = Suc (length g div nat bptt_len)"
  proof -
    have "0 \<le> ?S div bptt_len"
      using S0 assms(2) by (simp add: pos_imp_zdiv_nonneg_iff)
    then have "nat (?S div bptt_len + 1) = Suc (nat (?S div bptt_len))"
      by simp
    also have "nat (?S div bptt_len) = nat ?S div nat bptt_len"
      using S0 by (simp add: nat_div_distrib)
    finally show ?thesis
      using leng by simp
  qed
  then have cb: "create_batch input_data bsz bptt_len pad =
             Inr (map (\<lambda>k. if k = 0 then replicate (nat bsz) pad # take (nat bptt_len) g
                            else drop (k * nat bptt_len - 1) (take (Suc k * nat bptt_len) g))
                      [0..<Suc (length g div nat bptt_len)])"
    using create_batch_windows[OF assms pg] by simp
  show ?thesis
    using pf f1 f2 pg g1 g2 cb by blast
qed

text \<open>
  C2. For every flat id sequence, every lane count \<open>bsz \<ge> 1\<close> and every window length
  \<open>bptt_len \<ge> 1\<close>, \<^verbatim>\<open>create_batch\<close> returns a non-empty list of windows over the padded
  (time, lane) grid such that: window 0 begins with a row of \<open>bsz\<close> pad ids; for every
  \<open>i \<ge> 1\<close> window \<open>i\<close> is non-empty and its first row is the last row of window \<open>i - 1\<close>;
  and the rows of the windows, each window without its first row, concatenated in order are
  the rows of the grid.
\<close>

theorem create_batch_overlap:
  assumes "0 < bsz" and "0 < bptt_len"
  shows "\<exists>grid ws.
           padded_grid input_data bsz pad = Inr grid \<and>
           create_batch input_data bsz bptt_len pad = Inr ws \<and>
           ws \<noteq> [] \<and>
           hd (ws ! 0) = replicate (nat bsz) pad \<and>
           (\<forall>i. 1 \<le> i \<and> i < length ws \<longrightarrow>
                  ws ! i \<noteq> [] \<and> hd (ws ! i) = last (ws ! (i - 1))) \<and>
           concat (map tl ws) = grid"
proof -
  define w where "w = nat bptt_len"
  define p where "p = replicate (nat bsz) pad"
  have w0: "0 < w"
    using assms(2) by (simp add: w_def)
  obtain g where pg: "padded_grid input_data bsz pad = Inr g"
    and cb: "create_batch input_data bsz bptt_len pad =
               Inr (map (\<lambda>k. if k = 0 then p # take w g
                              else drop (k * w - 1) (take (Suc k * w) g))
                        [0..<Suc (length g div w)])"
    using create_batch_pos[OF assms, of input_data pad] unfolding w_def p_def by blast
  define ws where "ws = map (\<lambda>k. if k = 0 then p # take w g
                                  else drop (k * w - 1) (take (Suc k * w) g))
                            [0..<Suc (length g div w)]"
  have len: "length ws = Suc (length g div w)"
    by (simp add: ws_def)
  have nth: "ws ! k = (if k = 0 then p # take w g else drop (k * w - 1) (take (Suc k * w) g))"
    if "k < length ws" for k
  proof -
    have "k < Suc (length g div w)"
      using that len by simp
    then show ?thesis
      unfolding ws_def by (simp del: upt_Suc)
  qed
  have ne: "ws \<noteq> []"
    using len by auto
  have first: "hd (ws ! 0) = p"
    using nth[of 0] len by simp
  have overlap: "ws ! i \<noteq> [] \<and> hd (ws ! i) = last (ws ! (i - 1))"
    if "1 \<le> i \<and> i < length ws" for i
  proof -
    have i1: "1 \<le> i" and i2: "i \<le> length g div w" and i3: "i - 1 < length ws"
      using that len by auto
    have wi: "ws ! i = drop (i * w - 1) (take (Suc i * w) g)"
      using nth[of i] that by simp
    have wp: "ws ! (i - 1) = (if i - 1 = 0 then p # take w g
                              else drop ((i - 1) * w - 1) (take (Suc (i - 1) * w) g))"
      using nth[OF i3] .
    show ?thesis
      unfolding wi wp using window_overlap[OF w0 i1 i2] by simp
  qed
  have whole: "concat (map tl ws) = g"
    unfolding ws_def by (rule concat_tl_windows[OF w0])
  have "create_batch input_data bsz bptt_len pad = Inr ws"
    using cb by (simp add: ws_def)
  then show ?thesis
    using pg ne first overlap whole unfolding p_def by blast
qed

theorem create_batch_overlap_witness:
  "(0::int) < 2 \<and> (0::int) < 3 \<and>
   (\<exists>grid ws.
      padded_grid [2, 3, 4, 3, 2] 2 0 = Inr grid \<and>
      create_batch [2, 3, 4, 3, 2] 2 3 0 = Inr ws \<and>
      ws \<noteq> [] \<and>
      hd (ws ! 0) = replicate (nat 2) 0 \<and>
      (\<forall>i. 1 \<le> i \<and> i < length ws \<longrightarrow>
             ws ! i \<noteq> [] \<and> hd (ws ! i) = last (ws ! (i - 1))) \<and>
      concat (map tl ws) = grid)"
proof -
  have b: "(0::int) < 2" and w: "(0::int) < 3"
    by simp_all
  show ?thesis
    using b w create_batch_overlap[OF b w, of "[2, 3, 4, 3, 2]" 0] by blast
qed

text \<open>
  C1, as the code has it. For every encoded corpus of length \<open>L\<close> and every lane count
  \<open>bsz \<ge> 1\<close>, the batcher computes \<open>segment_len = L div bsz + 1\<close> (floor division plus
  one, not the ceiling), pads the flat sequence with the pad id to exactly
  \<open>bsz * segment_len\<close> cells, and lays it out as \<open>segment_len\<close> rows of \<open>bsz\<close> lanes where
  cell (time \<open>t\<close>, lane \<open>b\<close>) is cell \<open>b * segment_len + t\<close> of the padded sequence.
\<close>

theorem create_batch_shape:
  assumes "0 < bsz"
  shows "\<exists>flat grid.
           segment_len_of (int (length input_data)) bsz =
             Inr (int (length input_data) div bsz + 1) \<and>
           padded_flat input_data bsz pad = Inr flat \<and>
           flat = input_data @ replicate (length flat - length input_data) pad \<and>
           int (length flat) = bsz * (int (length input_data) div bsz + 1) \<and>
           padded_grid input_data bsz pad = Inr grid \<and>
           grid = map (\<lambda>t. map (\<lambda>b. flat ! (b * length grid + t)) [0..<nat bsz])
                      [0..<length grid] \<and>
           int (length grid) = int (length input_data) div bsz + 1"
proof -
  have w: "(0::int) < 1"
    by simp
  obtain flat g where
    pf: "padded_flat input_data bsz pad = Inr flat"
    and f1: "flat = input_data @ replicate (length flat - length input_data) pad"
    and f2: "int (length flat) = bsz * (int (length input_data) div bsz + 1)"
    and pg: "padded_grid input_data bsz pad = Inr g"
    and g1: "g = map (\<lambda>t. map (\<lambda>b. flat ! (b * length g + t)) [0..<nat bsz]) [0..<length g]"
    and g2: "int (length g) = int (length input_data) div bsz + 1"
    using create_batch_pos[OF assms w, of input_data pad] by blast
  have s: "segment_len_of (int (length input_data)) bsz = Inr (int (length input_data) div bsz + 1)"
    using assms by (simp add: segment_len_of_def)
  show ?thesis
    using s pf f1 f2 pg g1 g2 by blast
qed

theorem create_batch_shape_witness:
  "(0::int) < 2 \<and>
   (\<exists>flat grid.
      segment_len_of (int (length [2, 3, 4, 3, 2, 4::int])) 2 =
        Inr (int (length [2, 3, 4, 3, 2, 4::int]) div 2 + 1) \<and>
      padded_flat [2, 3, 4, 3, 2, 4] 2 0 = Inr flat \<and>
      flat = [2, 3, 4, 3, 2, 4] @ replicate (length flat - length [2, 3, 4, 3, 2, 4::int]) 0 \<and>
      int (length flat) = 2 * (int (length [2, 3, 4, 3, 2, 4::int]) div 2 + 1) \<and>
      padded_grid [2, 3, 4, 3, 2, 4] 2 0 = Inr grid \<and>
      grid = map (\<lambda>t. map (\<lambda>b. flat ! (b * length grid + t)) [0..<nat 2]) [0..<length grid] \<and>
      int (length grid) = int (length [2, 3, 4, 3, 2, 4::int]) div 2 + 1)"
proof -
  have b: "(0::int) < 2"
    by simp
  show ?thesis
    using b create_batch_shape[OF b, of "[2, 3, 4, 3, 2, 4]" 0] by blast
qed

text \<open>
  C1 as stated fails: for the six ids \<open>[2, 3, 4, 3, 2, 4]\<close> with two lanes the code's
  segment length is 4, not the ceiling of 6 / 2, and the padded sequence has 8 cells, not
  \<open>2 * 3\<close>.
\<close>

theorem create_batch_not_ceiling:
  "segment_len_of (int (length [2, 3, 4, 3, 2, 4::int])) 2 = Inr 4 \<and>
   segment_len_of (int (length [2, 3, 4, 3, 2, 4::int])) 2 \<noteq>
     Inr \<lceil>real (length [2, 3, 4, 3, 2, 4::int]) / 2\<rceil> \<and>
   padded_flat [2, 3, 4, 3, 2, 4] 2 0 = Inr [2, 3, 4, 3, 2, 4, 0, 0] \<and>
   int (length [2, 3, 4, 3, 2, 4, 0, 0::int]) \<noteq>
     2 * \<lceil>real (length [2, 3, 4, 3, 2, 4::int]) / 2\<rceil>"
proof -
  have "padded_flat [2, 3, 4, 3, 2, 4] 2 0 = Inr [2, 3, 4, 3, 2, 4, 0, 0]"
    by code_simp
  then show ?thesis
    by (simp add: segment_len_of_def)
qed

text \<open>
  C5, as the code has it. Batching \<open>[2, 3, 4, 3, 2, 4]\<close> with two lanes, window length 2
  and pad id 0 yields \<open>segment_len = 4\<close>, the padded sequence \<open>[2, 3, 4, 3, 2, 4, 0, 0]\<close>
  and the (time, lane) grid \<open>[[2, 2], [3, 4], [4, 0], [3, 0]]\<close>; window 0 is a row of pad
  ids followed by the first two rows of the grid.
\<close>

theorem create_batch_example:
  "segment_len_of (int (length [2, 3, 4, 3, 2, 4::int])) 2 = Inr 4 \<and>
   padded_flat [2, 3, 4, 3, 2, 4] 2 0 = Inr [2, 3, 4, 3, 2, 4, 0, 0] \<and>
   padded_grid [2, 3, 4, 3, 2, 4] 2 0 = Inr [[2, 2], [3, 4], [4, 0], [3, 0]] \<and>
   (\<exists>ws. create_batch [2, 3, 4, 3, 2, 4] 2 2 0 = Inr ws \<and> ws \<noteq> [] \<and>
         ws ! 0 = [[0, 0], [2, 2], [3, 4]])"
proof -
  have "padded_flat [2, 3, 4, 3, 2, 4] 2 0 = Inr [2, 3, 4, 3, 2, 4, 0, 0]"
    by code_simp
  moreover have "padded_grid [2, 3, 4, 3, 2, 4] 2 0 = Inr [[2, 2], [3, 4], [4, 0], [3, 0]]"
    by code_simp
  moreover have "create_batch [2, 3, 4, 3, 2, 4] 2 2 0 =
      Inr [[[0, 0], [2, 2], [3, 4]], [[3, 4], [4, 0], [3, 0]], [[3, 0]]]"
    by code_simp
  ultimately show ?thesis
    by (simp add: segment_len_of_def)
qed

text \<open>
  C5 as stated fails: the segment length is not 3, and the grid is neither the 3 by 3
  grid of the claim nor its transpose.
\<close>

theorem create_batch_example_differs:
  "segment_len_of (int (length [2, 3, 4, 3, 2, 4::int])) 2 \<noteq> Inr 3 \<and>
   padded_grid [2, 3, 4, 3, 2, 4] 2 0 \<noteq> Inr [[2, 3, 2], [3, 2, 4], [4, 4, 0]] \<and>
   padded_grid [2, 3, 4, 3, 2, 4] 2 0 \<noteq> Inr [[2, 3, 4], [3, 2, 4], [2, 4, 0]]"
proof -
  have "padded_grid [2, 3, 4, 3, 2, 4] 2 0 = Inr [[2, 2], [3, 4], [4, 0], [3, 0]]"
    by code_simp
  then show ?thesis
    by (simp add: segment_len_of_def)
qed

section \<open>Claims on the accuracy metric\<close>

lemma accuracy_loop_counts:
  assumes "shape preds = n # ps" and "shape tgt = n # ts"
    and "broadcast_shapes ps ts = Some s"
  shows "\<forall>i\<in>set idxs. i < n \<Longrightarrow>
         accuracy_loop preds tgt (map int idxs) correct = Inr (correct + int (length idxs))"
proof (induction idxs arbitrary: correct)
  case Nil
  then show ?case by simp
next
  case (Cons i idxs)
  have i: "i < n"
    using Cons.prems by simp
  have p: "tensor_index preds (int i) =
             Inr \<lparr>shape = ps, elems = take (prod_list ps) (drop (i * prod_list ps) (elems preds))\<rparr>"
    using i assms(1) by (simp add: tensor_index_def Let_def)
  have t: "tensor_index tgt (int i) =
             Inr \<lparr>shape = ts, elems = take (prod_list ts) (drop (i * prod_list ts) (elems tgt))\<rparr>"
    using i assms(2) by (simp add: tensor_index_def Let_def)
  have rest: "accuracy_loop preds tgt (map int idxs) (correct + 1) =
                Inr (correct + 1 + int (length idxs))"
    using Cons.IH[of "correct + 1"] Cons.prems by simp
  show ?case
    using p t rest assms(3) by (simp add: tensor_eq_def bound_method_truth_def)
qed

text \<open>
  C9, as the code has it. \<^verbatim>\<open>compute_accuracy\<close> does not measure correctness: for every
  pair of tensors whose leading dimensions have the same size \<open>n\<close>, where \<open>n\<close> is not zero
  and the shapes of the per-example slices can be compared (broadcast), it returns 1
  whatever the tensors hold.
\<close>

theorem compute_accuracy_always_one:
  assumes "shape preds = n # ps" and "shape tgt = n # ts" and "0 < n"
    and "broadcast_shapes ps ts \<noteq> None"
  shows "compute_accuracy preds tgt = Inr 1"
proof -
  obtain s where s: "broadcast_shapes ps ts = Some s"
    using assms(4) by auto
  have "accuracy_loop preds tgt (map int [0..<n]) 0 = Inr (0 + int (length [0..<n]))"
    by (rule accuracy_loop_counts[OF assms(1,2) s]) simp
  then have "accuracy_loop preds tgt (py_range (int n)) 0 = Inr (int n)"
    by (simp add: py_range_def)
  then show ?thesis
    using assms(2,3) by (simp add: compute_accuracy_def shape_at_def)
qed

theorem compute_accuracy_always_one_witness:
  "compute_accuracy \<lparr>shape = [2, 3], elems = [1, 2, 3, 4, 5, 6::int]\<rparr>
                    \<lparr>shape = [2, 3], elems = [9, 9, 9, 9, 9, 9]\<rparr> = Inr 1"
proof -
  have b: "broadcast_shapes [3] [3] \<noteq> None"
    by (simp add: broadcast_shapes_def)
  show ?thesis
    by (rule compute_accuracy_always_one[where n = 2 and ps = "[3]" and ts = "[3]"])
      (simp_all add: b)
qed

text \<open>
  C9 as stated fails: with equal leading dimensions of size 0 the division raises
  \<^verbatim>\<open>ZeroDivisionError\<close>, and with equal leading dimensions but slices of shapes (2) and (3)
  the comparison raises.
\<close>

theorem compute_accuracy_raises:
  "compute_accuracy \<lparr>shape = [0], elems = ([]::int list)\<rparr> \<lparr>shape = [0], elems = []\<rparr> =
     Inl ZeroDivisionError \<and>
   compute_accuracy \<lparr>shape = [1, 2], elems = [1, 2::int]\<rparr> \<lparr>shape = [1, 3], elems = [1, 2, 3]\<rparr> =
     Inl RuntimeError"
  by (simp add: compute_accuracy_def shape_at_def py_range_def tensor_index_def tensor_eq_def
      broadcast_shapes_def)

section \<open>Claims on decoding\<close>

lemma dict_contains_get:
  assumes "dict_contains d k"
  shows "\<exists>v. dict_get d k = Inr v"
proof -
  have "map_of d k \<noteq> None"
    using assms by (simp add: dict_contains_def)
  then obtain v where "map_of d k = Some v"
    by auto
  then have "dict_get d k = Inr v"
    by (simp add: dict_get_def)
  then show ?thesis ..
qed

lemma encode_prompt_known:
  assumes "\<forall>c\<in>set prompt. dict_contains (string_to_id vocab) [c]"
  shows "\<exists>ids. encode_prompt vocab prompt prompt_list = Inr (prompt_list @ ids) \<and>
               length ids = length prompt"
  using assms
proof (induction prompt arbitrary: prompt_list)
  case Nil
  then show ?case by simp
next
  case (Cons c cs)
  have "dict_contains (string_to_id vocab) [c]"
    using Cons.prems by simp
  then have "\<exists>i. dict_get (string_to_id vocab) [c] = Inr i"
    by (rule dict_contains_get)
  then obtain i where i: "dict_get (string_to_id vocab) [c] = Inr i" ..
  have rest: "\<forall>c\<in>set cs. dict_contains (string_to_id vocab) [c]"
    using Cons.prems by simp
  have "\<exists>ids. encode_prompt vocab cs (prompt_list @ [i]) = Inr ((prompt_list @ [i]) @ ids) \<and>
              length ids = length cs"
    using rest by (rule Cons.IH)
  then obtain ids where e: "encode_prompt vocab cs (prompt_list @ [i]) = Inr ((prompt_list @ [i]) @ ids)"
    and l: "length ids = length cs"
    by (elim exE conjE)
  have "encode_prompt vocab (c # cs) prompt_list = encode_prompt vocab cs (prompt_list @ [i])"
    by (simp add: i)
  then have "encode_prompt vocab (c # cs) prompt_list = Inr (prompt_list @ (i # ids))"
    unfolding e by simp
  moreover have "length (i # ids) = length (c # cs)"
    using l by simp
  ultimately show ?case
    by blast
qed

lemma encode_prompt_unknown:
  assumes "c \<in> set prompt" and "\<not> dict_contains (string_to_id vocab) [c]"
  shows "\<exists>e. encode_prompt vocab prompt prompt_list = Inl e"
  using assms
proof (induction prompt arbitrary: prompt_list)
  case Nil
  then show ?case by simp
next
  case (Cons d ds)
  show ?case
  proof (cases "dict_get (string_to_id vocab) [d]")
    case (Inl e)
    then show ?thesis by simp
  next
    case (Inr i)
    then have "d \<noteq> c"
      using Cons.prems(2) by (auto simp: dict_contains_def dict_get_def split: option.splits)
    then have "c \<in> set ds"
      using Cons.prems(1) by simp
    then show ?thesis
      using Inr Cons.IH[of "prompt_list @ [i]"] Cons.prems(2) by simp
  qed
qed

lemma decode_loop_greedy:
  assumes "\<forall>l. dict_contains (id_to_string vocab) (topk1 ops l)"
  shows "\<exists>out. decode_loop vocab model ops False k (TensorInput i) state g out_list =
                 Inr (out_list @ out) \<and> length out = k"
proof (induction k arbitrary: i state out_list)
  case 0
  then show ?case by simp
next
  case (Suc k)
  obtain logits state' where c: "cell model i state = (logits, state')"
    by (cases "cell model i state")
  have "dict_contains (id_to_string vocab) (topk1 ops logits)"
    using assms by (rule spec)
  then have "\<exists>s. dict_get (id_to_string vocab) (topk1 ops logits) = Inr s"
    by (rule dict_contains_get)
  then obtain s where s: "dict_get (id_to_string vocab) (topk1 ops logits) = Inr s" ..
  have "\<exists>out. decode_loop vocab model ops False k (TensorInput (topk1 ops logits)) state' g
                 (out_list @ [s]) = Inr ((out_list @ [s]) @ out) \<and> length out = k"
    by (rule Suc.IH)
  then obtain out where d: "decode_loop vocab model ops False k (TensorInput (topk1 ops logits))
                              state' g (out_list @ [s]) = Inr ((out_list @ [s]) @ out)"
    and l: "length out = k"
    by (elim exE conjE)
  have "decode_loop vocab model ops False (Suc k) (TensorInput i) state g out_list =
          decode_loop vocab model ops False k (TensorInput (topk1 ops logits)) state' g
            (out_list @ [s])"
    by (simp add: c s)
  then have "decode_loop vocab model ops False (Suc k) (TensorInput i) state g out_list =
               Inr (out_list @ (s # out))"
    unfolding d by simp
  moreover have "length (s # out) = Suc k"
    using l by simp
  ultimately show ?case
    by blast
qed

lemma length_concat_unit:
  assumes "\<forall>t\<in>set xs. length t = 1"
  shows "length (concat xs) = length xs"
  using assms by (induction xs) simp_all

text \<open>
  C10, as the code has it. For every non-empty prompt whose characters are all keys of the
  vocabulary, every \<open>steps \<ge> 0\<close> and a model whose arg-max index is always an id of the
  vocabulary, \<^verbatim>\<open>complete\<close> with \<^verbatim>\<open>sample=False\<close> returns the concatenation of exactly
  \<open>steps + 1\<close> decoded token strings: one from the prompt's last row of logits and one
  per decoding iteration. The result has \<open>steps + 1\<close> characters when every decoded token
  is one character long.
\<close>

theorem complete_greedy_tokens:
  assumes "prompt \<noteq> []"
    and "\<forall>c\<in>set prompt. dict_contains (string_to_id vocab) [c]"
    and "\<forall>l. dict_contains (id_to_string vocab) (topk1 ops l)"
    and "0 \<le> steps"
  shows "\<exists>out_list.
           complete_out_list vocab model ops g prompt steps False = Inr out_list \<and>
           int (length out_list) = steps + 1 \<and>
           complete vocab model ops g prompt steps False = Inr (concat out_list) \<and>
           ((\<forall>s\<in>set out_list. length s = 1) \<longrightarrow> int (length (concat out_list)) = steps + 1)"
proof -
  have "\<exists>ids. encode_prompt vocab prompt [] = Inr ([] @ ids) \<and> length ids = length prompt"
    using assms(2) by (rule encode_prompt_known)
  then obtain ids where enc0: "encode_prompt vocab prompt [] = Inr ([] @ ids)"
    and len: "length ids = length prompt"
    by (elim exE conjE)
  have enc: "encode_prompt vocab prompt [] = Inr ids"
    using enc0 by simp
  have ne: "ids \<noteq> []"
    using len assms(1) by auto
  obtain logits state where f: "forward model ids (init_hidden model) = (logits, state)"
    by (cases "forward model ids (init_hidden model)")
  have "dict_contains (id_to_string vocab) (topk1 ops (last logits))"
    using assms(3) by (rule spec)
  then have "\<exists>s. dict_get (id_to_string vocab) (topk1 ops (last logits)) = Inr s"
    by (rule dict_contains_get)
  then obtain s where s: "dict_get (id_to_string vocab) (topk1 ops (last logits)) = Inr s" ..
  have "\<exists>out. decode_loop vocab model ops False (nat steps)
                 (TensorInput (topk1 ops (last logits))) state g [s] = Inr ([s] @ out) \<and>
               length out = nat steps"
    using assms(3) by (rule decode_loop_greedy)
  then obtain out where d: "decode_loop vocab model ops False (nat steps)
                         (TensorInput (topk1 ops (last logits))) state g [s] = Inr ([s] @ out)"
      and lo: "length out = nat steps"
    by (elim exE conjE)
  have "complete_out_list vocab model ops g prompt steps False =
          decode_loop vocab model ops False (nat steps)
            (TensorInput (topk1 ops (last logits))) state g [s]"
    by (simp add: complete_out_list_def enc ne f s)
  then have col: "complete_out_list vocab model ops g prompt steps False = Inr (s # out)"
    unfolding d by simp
  have n: "int (length (s # out)) = steps + 1"
    using lo assms(4) by simp
  have c: "complete vocab model ops g prompt steps False = Inr (concat (s # out))"
    using col by (simp add: complete_def)
  have "int (length (concat (s # out))) = steps + 1" if "\<forall>t\<in>set (s # out). length t = 1"
  proof -
    have "length (concat (s # out)) = length (s # out)"
      using that by (rule length_concat_unit)
    then show ?thesis
      using n by simp
  qed
  then have "(\<forall>t\<in>set (s # out). length t = 1) \<longrightarrow>
             int (length (concat (s # out))) = steps + 1"
    by (rule impI)
  with col n c show ?thesis
    by (intro exI[of _ "s # out"] conjI)
qed

theorem complete_greedy_tokens_witness:
  "\<exists>out_list.
     complete_out_list (add_new_word Vocabulary_default ''a'')
       \<lparr>init_hidden = (), cell = (\<lambda>x st. ((), st))\<rparr>
       \<lparr>topk1 = (\<lambda>l. 2), multinomial1 = (\<lambda>l g. (2, g))\<rparr> () ''a'' 2 False = Inr out_list \<and>
     int (length out_list) = 2 + 1 \<and>
     complete (add_new_word Vocabulary_default ''a'')
       \<lparr>init_hidden = (), cell = (\<lambda>x st. ((), st))\<rparr>
       \<lparr>topk1 = (\<lambda>l. 2), multinomial1 = (\<lambda>l g. (2, g))\<rparr> () ''a'' 2 False =
       Inr (concat out_list) \<and>
     ((\<forall>s\<in>set out_list. length s = 1) \<longrightarrow> int (length (concat out_list)) = 2 + 1)"
  by (rule complete_greedy_tokens)
    (simp_all add: dict_contains_def add_new_word_def Vocabulary_default_def Vocabulary_def
      dict_set_def dict_len_def)

text \<open>
  C10 as stated fails twice. A model whose arg-max is the pad id decodes the reserved
  token \<^verbatim>\<open><pad>\<close>, five characters for one token, so zero steps return five characters;
  and the empty prompt, all of whose characters are in the vocabulary, raises.
\<close>

theorem complete_not_steps_plus_one_chars:
  "complete (add_new_word Vocabulary_default ''a'')
     \<lparr>init_hidden = (), cell = (\<lambda>x st. ((), st))\<rparr>
     \<lparr>topk1 = (\<lambda>l. 0), multinomial1 = (\<lambda>l g. (0, g))\<rparr> () ''a'' 0 False = Inr ''<pad>'' \<and>
   int (length ''<pad>'') \<noteq> 0 + 1 \<and>
   complete (add_new_word Vocabulary_default ''a'')
     \<lparr>init_hidden = (), cell = (\<lambda>x st. ((), st))\<rparr>
     \<lparr>topk1 = (\<lambda>l. 0), multinomial1 = (\<lambda>l g. (0, g))\<rparr> () '''' 0 False = Inl RuntimeError"
  by (simp add: complete_def complete_out_list_def dict_get_def add_new_word_def
      Vocabulary_default_def Vocabulary_def dict_set_def dict_len_def)

text \<open>
  C3. The code does not do what the claim says. With the vocabulary built from the corpus of
  the two lines \<^verbatim>\<open>ab\<close> and \<^verbatim>\<open>ba\<close>, a prompt that contains the character \<^verbatim>\<open>z\<close>, which is
  not in the vocabulary, makes \<^verbatim>\<open>complete\<close> raise \<^verbatim>\<open>KeyError\<close>, for every model, every
  number of steps and both decoding modes: the unknown id is never used.
\<close>

theorem complete_unknown_char_raises:
  "\<exists>ids v. text_to_data (Some [''ab'' @ [CHR 0x0A], ''ba'' @ [CHR 0x0A]]) None True = Inr (ids, v) \<and>
           complete v model ops g ''abz'' steps sample = Inl KeyError"
  by (simp add: text_to_data_def get_idx_def dict_contains_def dict_get_def add_new_word_def
      Vocabulary_default_def Vocabulary_def dict_set_def dict_len_def
      complete_def complete_out_list_def)

section \<open>Claims on the training loop\<close>

lemma train_step_width_change:
  assumes "shape_at state_h 1 = Inr prev_bsz" and "shape batch = n # bsz # rest"
    and "bsz \<noteq> prev_bsz"
  shows "train_step model (state_h, state_c) batch = Inl NameError"
  using assms
  by (simp add: train_step_def custom_detach_def tensor_slice_def shape_at_def Let_def)

text \<open>
  All windows the batcher makes have the lane count it was given, so the widths differ
  only for batches that come from elsewhere.
\<close>

lemma create_batch_lane_width:
  assumes "0 < bsz" and "0 < bptt_len"
    and "create_batch input_data bsz bptt_len pad = Inr ws"
    and "w \<in> set ws" and "row \<in> set w"
  shows "length row = nat bsz"
proof -
  obtain flat g where
    g1: "g = map (\<lambda>t. map (\<lambda>b. flat ! (b * length g + t)) [0..<nat bsz]) [0..<length g]"
    and cb: "create_batch input_data bsz bptt_len pad =
               Inr (map (\<lambda>k. if k = 0 then replicate (nat bsz) pad # take (nat bptt_len) g
                              else drop (k * nat bptt_len - 1) (take (Suc k * nat bptt_len) g))
                        [0..<Suc (length g div nat bptt_len)])"
    using create_batch_pos[OF assms(1,2), of input_data pad] by blast
  have grow: "length r = nat bsz" if "r \<in> set g" for r
  proof -
    have "r \<in> set (map (\<lambda>t. map (\<lambda>b. flat ! (b * length g + t)) [0..<nat bsz]) [0..<length g])"
      using that g1 by simp
    then show ?thesis by auto
  qed
  have "ws = map (\<lambda>k. if k = 0 then replicate (nat bsz) pad # take (nat bptt_len) g
                         else drop (k * nat bptt_len - 1) (take (Suc k * nat bptt_len) g))
                   [0..<Suc (length g div nat bptt_len)]"
    using assms(3) cb by simp
  then have "w \<in> (\<lambda>k. if k = 0 then replicate (nat bsz) pad # take (nat bptt_len) g
                         else drop (k * nat bptt_len - 1) (take (Suc k * nat bptt_len) g)) `
                   set [0..<Suc (length g div nat bptt_len)]"
    using assms(4) by (simp only: set_map)
  then obtain k where w: "w = (if k = 0 then replicate (nat bsz) pad # take (nat bptt_len) g
                          else drop (k * nat bptt_len - 1) (take (Suc k * nat bptt_len) g))"
    by blast
  show ?thesis
  proof (cases "k = 0")
    case True
    then have "row = replicate (nat bsz) pad \<or> row \<in> set (take (nat bptt_len) g)"
      using w assms(5) by auto
    then show ?thesis
      using grow by (auto dest: in_set_takeD)
  next
    case False
    then have "row \<in> set g"
      using w assms(5) by (auto dest: in_set_dropD in_set_takeD)
    then show ?thesis
      by (rule grow)
  qed
qed


section \<open>Claims on the paired dataset\<close>

text \<open>
  The encoders change a vocabulary only by appending entries to \<^verbatim>\<open>string_to_id\<close> and by
  changing \<^verbatim>\<open>id_to_string\<close>; the ids given so far and the shortcut ids stay.
\<close>

lemma grows_refl:
  "v = v\<lparr>string_to_id := string_to_id v @ [], id_to_string := id_to_string v\<rparr>"
  by simp

lemma grows_trans:
  assumes a: "v1 = v\<lparr>string_to_id := string_to_id v @ e, id_to_string := i\<rparr>"
    and b: "v2 = v1\<lparr>string_to_id := string_to_id v1 @ e', id_to_string := i'\<rparr>"
  shows "v2 = v\<lparr>string_to_id := string_to_id v @ (e @ e'), id_to_string := i'\<rparr>"
  by (subst b, subst (1 2) a) simp

lemma grows_contains:
  assumes a: "v' = v\<lparr>string_to_id := string_to_id v @ e, id_to_string := i\<rparr>"
    and "map_of (string_to_id v) k \<noteq> None"
  shows "map_of (string_to_id v') k = map_of (string_to_id v) k"
proof -
  from assms(2) obtain j where j: "map_of (string_to_id v) k = Some j"
    by (cases "map_of (string_to_id v) k") simp_all
  have "string_to_id v' = string_to_id v @ e"
    by (subst a) simp
  then have "map_of (string_to_id v') k = Some j"
    using map_of_append_old[OF j, of e] by simp
  then show ?thesis
    using j by simp
qed

lemma grows_unk:
  assumes a: "v' = v\<lparr>string_to_id := string_to_id v @ e, id_to_string := i\<rparr>"
  shows "unk_id v' = unk_id v" and "pad_id v' = pad_id v"
proof -
  show "unk_id v' = unk_id v"
    by (subst a) simp
  show "pad_id v' = pad_id v"
    by (subst a) simp
qed

lemma grows_markers:
  fixes v :: seq_vocabulary
  assumes a: "v' = v\<lparr>string_to_id := string_to_id v @ e, id_to_string := i\<rparr>"
  shows "eos_id v' = eos_id v" and "sos_id v' = sos_id v"
proof -
  show "eos_id v' = eos_id v"
    by (subst a) simp
  show "sos_id v' = sos_id v"
    by (subst a) simp
qed

lemma stable_line:
  assumes a: "v' = v\<lparr>string_to_id := string_to_id v @ e, id_to_string := i\<rparr>"
    and "ext \<longrightarrow> (\<forall>c\<in>set line. map_of (string_to_id v) [c] \<noteq> None)"
    and "\<not> ext \<longrightarrow> v' = v"
  shows "map (char_id v') line = map (char_id v) line"
proof (cases ext)
  case True
  have "char_id v' c = char_id v c" if "c \<in> set line" for c
  proof -
    have "map_of (string_to_id v) [c] \<noteq> None"
      using assms(2) True that by simp
    then have "map_of (string_to_id v') [c] = map_of (string_to_id v) [c]"
      by (rule grows_contains[OF a])
    moreover have "unk_id v' = unk_id v"
      by (rule grows_unk(1)[OF a])
    ultimately show ?thesis
      by (simp add: char_id_def split: option.split)
  qed
  then show ?thesis
    by simp
next
  case False
  then show ?thesis
    using assms(3) by simp
qed

text \<open>
  \<open>char_id\<close> is the id \<^verbatim>\<open>get_idx\<close> returns for a character on a vocabulary that is not
  extended.
\<close>

lemma get_idx_closed_char_id:
  "get_idx v [c] False = Inr (char_id v c, v)"
  by (simp add: get_idx_def char_id_def dict_contains_def dict_get_def split: option.split)

text \<open>One call of \<^verbatim>\<open>get_idx\<close> on a character never raises.\<close>

lemma get_idx_char:
  "\<exists>i v' e i2s. get_idx v [c] ext = Inr (i, v') \<and> i = char_id v' c \<and>
          (ext \<longrightarrow> map_of (string_to_id v') [c] \<noteq> None) \<and> (\<not> ext \<longrightarrow> v' = v) \<and>
          v' = v\<lparr>string_to_id := string_to_id v @ e, id_to_string := i2s\<rparr>"
proof (cases "map_of (string_to_id v) [c]")
  case (Some j)
  have g: "get_idx v [c] ext = Inr (j, v)"
    using Some by (simp add: get_idx_def dict_contains_def dict_get_def)
  have c: "j = char_id v c"
    using Some by (simp add: char_id_def)
  have x: "ext \<longrightarrow> map_of (string_to_id v) [c] \<noteq> None"
    using Some by simp
  have n: "\<not> ext \<longrightarrow> v = v"
    by simp
  from g c x n grows_refl[of v] show ?thesis
    by (intro exI conjI)
next
  case None
  show ?thesis
  proof (cases ext)
    case False
    have g: "get_idx v [c] ext = Inr (unk_id v, v)"
      using None False by (simp add: get_idx_def dict_contains_def)
    have c: "unk_id v = char_id v c"
      using None by (simp add: char_id_def)
    have x: "ext \<longrightarrow> map_of (string_to_id v) [c] \<noteq> None"
      using False by simp
    have n: "\<not> ext \<longrightarrow> v = v"
      by simp
    from g c x n grows_refl[of v] show ?thesis
      by (intro exI conjI)
  next
    case True
    define n where "n = dict_len (string_to_id v)"
    define v' where "v' = add_new_word v [c]"
    have s: "string_to_id v' = string_to_id v @ [([c], n)]"
      using None by (simp add: v'_def n_def add_new_word_def Let_def dict_set_absent)
    have m: "map_of (string_to_id v') [c] = Some n"
      unfolding s using None by (rule map_of_append_new)
    have g: "get_idx v [c] ext = Inr (n, v')"
      using None True m by (simp add: get_idx_def dict_contains_def dict_get_def Let_def v'_def)
    have c: "n = char_id v' c"
      using m by (simp add: char_id_def)
    have "v' = v\<lparr>string_to_id := string_to_id v', id_to_string := id_to_string v'\<rparr>"
      by (simp add: v'_def add_new_word_def Let_def)
    then have f: "v' = v\<lparr>string_to_id := string_to_id v @ [([c], n)], id_to_string := id_to_string v'\<rparr>"
      unfolding s .
    have x: "ext \<longrightarrow> map_of (string_to_id v') [c] \<noteq> None"
      using m by simp
    have nx: "\<not> ext \<longrightarrow> v' = v"
      using True by simp
    from g c x nx f show ?thesis
      by (intro exI conjI)
  qed
qed

text \<open>
  The inner loop over the characters of a line never raises; it appends one id per
  character, the id the character has in the vocabulary the loop leaves.
\<close>

lemma encode_tokens_char:
  "\<exists>ids v' e i2s. encode_tokens v ext line acc = Inr (acc @ ids, v') \<and>
            ids = map (char_id v') line \<and>
            (ext \<longrightarrow> (\<forall>c\<in>set line. map_of (string_to_id v') [c] \<noteq> None)) \<and>
            (\<not> ext \<longrightarrow> v' = v) \<and>
            v' = v\<lparr>string_to_id := string_to_id v @ e, id_to_string := i2s\<rparr>"
proof (induction line arbitrary: v acc)
  case Nil
  have r: "encode_tokens v ext [] acc = Inr (acc @ [], v)"
    by simp
  have l: "[] = map (char_id v) []"
    by simp
  have x: "ext \<longrightarrow> (\<forall>c\<in>set []. map_of (string_to_id v) [c] \<noteq> None)"
    by simp
  have n: "\<not> ext \<longrightarrow> v = v"
    by simp
  from r l x n grows_refl[of v] show ?case
    by (intro exI conjI)
next
  case (Cons c cs)
  from get_idx_char[of v c ext] obtain i v1 e1 i1 where
    g: "get_idx v [c] ext = Inr (i, v1)" and i: "i = char_id v1 c"
    and x1: "ext \<longrightarrow> map_of (string_to_id v1) [c] \<noteq> None" and n1: "\<not> ext \<longrightarrow> v1 = v"
    and g1: "v1 = v\<lparr>string_to_id := string_to_id v @ e1, id_to_string := i1\<rparr>"
    by (elim exE conjE)
  from Cons.IH[of v1 "acc @ [i]"] obtain ids v' e2 i2 where
    e: "encode_tokens v1 ext cs (acc @ [i]) = Inr ((acc @ [i]) @ ids, v')"
    and ids: "ids = map (char_id v') cs"
    and x2: "ext \<longrightarrow> (\<forall>c\<in>set cs. map_of (string_to_id v') [c] \<noteq> None)"
    and n2: "\<not> ext \<longrightarrow> v' = v1"
    and g2: "v' = v1\<lparr>string_to_id := string_to_id v1 @ e2, id_to_string := i2\<rparr>"
    by (elim exE conjE)
  have x1': "ext \<longrightarrow> (\<forall>d\<in>set [c]. map_of (string_to_id v1) [d] \<noteq> None)"
    using x1 by simp
  have "map (char_id v') [c] = map (char_id v1) [c]"
    using g2 x1' n2 by (rule stable_line)
  then have ci: "char_id v' c = i"
    using i by simp
  have "encode_tokens v ext (c # cs) acc = encode_tokens v1 ext cs (acc @ [i])"
    by (simp add: g)
  then have r: "encode_tokens v ext (c # cs) acc = Inr (acc @ (i # ids), v')"
    unfolding e by simp
  have l: "i # ids = map (char_id v') (c # cs)"
    using ci ids by simp
  have x: "ext \<longrightarrow> (\<forall>d\<in>set (c # cs). map_of (string_to_id v') [d] \<noteq> None)"
  proof
    assume ext
    then have "map_of (string_to_id v1) [c] \<noteq> None"
      using x1 by simp
    then have "map_of (string_to_id v') [c] \<noteq> None"
      using grows_contains[OF g2, of "[c]"] by simp
    then show "\<forall>d\<in>set (c # cs). map_of (string_to_id v') [d] \<noteq> None"
      using x2 \<open>ext\<close> by simp
  qed
  have n: "\<not> ext \<longrightarrow> v' = v"
    using n1 n2 by simp
  from r l x n grows_trans[OF g1 g2] show ?case
    by (intro exI conjI)
qed

text \<open>Padding a sequence that fits: the sequence, then pad ids up to the length.\<close>

lemma pad_sequence_fits:
  assumes "int (length seq) \<le> n"
  shows "pad_sequence seq n p = Inr (seq @ replicate (nat n - length seq) p)"
proof -
  have n0: "\<not> n < 0"
    using assms by linarith
  have le: "length seq \<le> nat n"
    using assms by linarith
  have slot: "py_slice (replicate (nat n) p) 0 (int (length seq)) = replicate (length seq) p"
    using le by (simp add: py_slice_nonneg min_def)
  have "assign_prefix (replicate (nat n) p) (int (length seq)) seq =
          Inr (seq @ replicate (nat n - length seq) p)"
    unfolding assign_prefix_def slot by (simp add: Let_def)
  then show ?thesis
    using n0 by (simp add: pad_sequence_def new_full_def Let_def)
qed

text \<open>The first pass over a file computes the maximum of the line lengths, 0 for no line.\<close>

lemma max_length_loop_fold:
  "max_length_loop lines m = fold max (map (\<lambda>line. int (length line)) lines) m"
  by (induction lines arbitrary: m) (simp_all add: Let_def max_def not_less)

lemma max_length_loop_Max:
  "max_length_loop lines 0 = Max (set (0 # map (\<lambda>line. int (length line)) lines))"
  unfolding max_length_loop_fold by (rule Max.set_eq_fold[symmetric])

lemma max_length_loop_bound:
  assumes "line \<in> set lines"
  shows "int (length line) \<le> max_length_loop lines 0"
proof -
  have "int (length line) \<in> set (0 # map (\<lambda>line. int (length line)) lines)"
    using assms by simp
  then have "int (length line) \<le> Max (set (0 # map (\<lambda>line. int (length line)) lines))"
    by (intro Max_ge) simp_all
  then show ?thesis
    unfolding max_length_loop_Max .
qed

text \<open>
  The loop over the lines of the source file, when every line fits the padded length:
  one row per line, the ids of the line's characters then pad ids.
\<close>

lemma src_loop_rows:
  assumes "\<forall>line\<in>set lines. int (length line) \<le> n"
  shows "\<exists>rows v' e i2s.
           src_loop v ext n p lines acc = Inr (acc @ rows, v') \<and>
           rows = map (\<lambda>line. map (char_id v') line @ replicate (nat n - length line) p) lines \<and>
           (ext \<longrightarrow> (\<forall>line\<in>set lines. \<forall>c\<in>set line. map_of (string_to_id v') [c] \<noteq> None)) \<and>
           (\<not> ext \<longrightarrow> v' = v) \<and>
           v' = v\<lparr>string_to_id := string_to_id v @ e, id_to_string := i2s\<rparr>"
  using assms
proof (induction lines arbitrary: v acc)
  case Nil
  have r: "src_loop v ext n p [] acc = Inr (acc @ [], v)"
    by simp
  have l: "[] = map (\<lambda>line. map (char_id v) line @ replicate (nat n - length line) p) []"
    by simp
  have x: "ext \<longrightarrow> (\<forall>line\<in>set []. \<forall>c\<in>set line. map_of (string_to_id v) [c] \<noteq> None)"
    by simp
  have nx: "\<not> ext \<longrightarrow> v = v"
    by simp
  from r l x nx grows_refl[of v] show ?case
    by (intro exI conjI)
next
  case (Cons line rest)
  from encode_tokens_char[of v ext line "[]"] obtain ids v1 e1 i1 where
    t: "encode_tokens v ext line [] = Inr ([] @ ids, v1)"
    and ids: "ids = map (char_id v1) line"
    and x1: "ext \<longrightarrow> (\<forall>c\<in>set line. map_of (string_to_id v1) [c] \<noteq> None)"
    and n1: "\<not> ext \<longrightarrow> v1 = v"
    and g1: "v1 = v\<lparr>string_to_id := string_to_id v @ e1, id_to_string := i1\<rparr>"
    by (elim exE conjE)
  have len: "length ids = length line"
    using ids by simp
  have "int (length ids) \<le> n"
    using Cons.prems len by simp
  then have pd: "pad_sequence ids n p = Inr (ids @ replicate (nat n - length ids) p)"
    by (rule pad_sequence_fits)
  define new where "new = ids @ replicate (nat n - length ids) p"
  have fits: "\<forall>line\<in>set rest. int (length line) \<le> n"
    using Cons.prems by simp
  from Cons.IH[OF fits, of v1 "acc @ [new]"] obtain rows v' e2 i2 where
    s: "src_loop v1 ext n p rest (acc @ [new]) = Inr ((acc @ [new]) @ rows, v')"
    and rows: "rows = map (\<lambda>line. map (char_id v') line @ replicate (nat n - length line) p) rest"
    and x2: "ext \<longrightarrow> (\<forall>line\<in>set rest. \<forall>c\<in>set line. map_of (string_to_id v') [c] \<noteq> None)"
    and n2: "\<not> ext \<longrightarrow> v' = v1"
    and g2: "v' = v1\<lparr>string_to_id := string_to_id v1 @ e2, id_to_string := i2\<rparr>"
    by (elim exE conjE)
  have st: "map (char_id v') line = map (char_id v1) line"
    using g2 x1 n2 by (rule stable_line)
  have "src_loop v ext n p (line # rest) acc = src_loop v1 ext n p rest (acc @ [new])"
    using t pd by (simp add: new_def)
  then have r: "src_loop v ext n p (line # rest) acc = Inr (acc @ (new # rows), v')"
    unfolding s by simp
  have "ids = map (char_id v') line"
    using ids st by simp
  moreover have "new = ids @ replicate (nat n - length line) p"
    unfolding new_def len ..
  ultimately have "new = map (char_id v') line @ replicate (nat n - length line) p"
    by simp
  then have l: "new # rows =
      map (\<lambda>line. map (char_id v') line @ replicate (nat n - length line) p) (line # rest)"
    using rows by simp
  have x: "ext \<longrightarrow> (\<forall>l\<in>set (line # rest). \<forall>c\<in>set l. map_of (string_to_id v') [c] \<noteq> None)"
  proof
    assume ext
    have "map_of (string_to_id v') [c] \<noteq> None" if "c \<in> set line" for c
    proof -
      have "map_of (string_to_id v1) [c] \<noteq> None"
        using x1 \<open>ext\<close> that by simp
      then show ?thesis
        using grows_contains[OF g2, of "[c]"] by simp
    qed
    then show "\<forall>l\<in>set (line # rest). \<forall>c\<in>set l. map_of (string_to_id v') [c] \<noteq> None"
      using x2 \<open>ext\<close> by simp
  qed
  have nx: "\<not> ext \<longrightarrow> v' = v"
    using n1 n2 by simp
  from r l x nx grows_trans[OF g1 g2] show ?case
    by (intro exI conjI)
qed

text \<open>
  The loop over the lines of the target file, when every line and its two markers fit the
  padded length: one row per line, the start marker, the ids of the line's characters, the
  end marker, then pad ids.
\<close>

lemma tgt_loop_rows:
  assumes "\<forall>line\<in>set lines. int (length line) + 2 \<le> n"
  shows "\<exists>rows v' e i2s.
           tgt_loop v ext n p sos eos lines acc = Inr (acc @ rows, v') \<and>
           rows = map (\<lambda>line. (sos # map (char_id v') line @ [eos]) @
                               replicate (nat n - (length line + 2)) p) lines \<and>
           (ext \<longrightarrow> (\<forall>line\<in>set lines. \<forall>c\<in>set line. map_of (string_to_id v') [c] \<noteq> None)) \<and>
           (\<not> ext \<longrightarrow> v' = v) \<and>
           v' = v\<lparr>string_to_id := string_to_id v @ e, id_to_string := i2s\<rparr>"
  using assms
proof (induction lines arbitrary: v acc)
  case Nil
  have r: "tgt_loop v ext n p sos eos [] acc = Inr (acc @ [], v)"
    by simp
  have l: "[] = map (\<lambda>line. (sos # map (char_id v) line @ [eos]) @
                             replicate (nat n - (length line + 2)) p) []"
    by simp
  have x: "ext \<longrightarrow> (\<forall>line\<in>set []. \<forall>c\<in>set line. map_of (string_to_id v) [c] \<noteq> None)"
    by simp
  have nx: "\<not> ext \<longrightarrow> v = v"
    by simp
  from r l x nx grows_refl[of v] show ?case
    by (intro exI conjI)
next
  case (Cons line rest)
  from encode_tokens_char[of v ext line "[sos]"] obtain ids v1 e1 i1 where
    t: "encode_tokens v ext line [sos] = Inr ([sos] @ ids, v1)"
    and ids: "ids = map (char_id v1) line"
    and x1: "ext \<longrightarrow> (\<forall>c\<in>set line. map_of (string_to_id v1) [c] \<noteq> None)"
    and n1: "\<not> ext \<longrightarrow> v1 = v"
    and g1: "v1 = v\<lparr>string_to_id := string_to_id v @ e1, id_to_string := i1\<rparr>"
    by (elim exE conjE)
  define seq where "seq = sos # ids @ [eos]"
  have len: "length seq = length line + 2"
    using ids by (simp add: seq_def)
  have "int (length seq) \<le> n"
    using Cons.prems len by simp
  then have pd: "pad_sequence seq n p = Inr (seq @ replicate (nat n - length seq) p)"
    by (rule pad_sequence_fits)
  define new where "new = seq @ replicate (nat n - length seq) p"
  have fits: "\<forall>line\<in>set rest. int (length line) + 2 \<le> n"
    using Cons.prems by simp
  from Cons.IH[OF fits, of v1 "acc @ [new]"] obtain rows v' e2 i2 where
    s: "tgt_loop v1 ext n p sos eos rest (acc @ [new]) = Inr ((acc @ [new]) @ rows, v')"
    and rows: "rows = map (\<lambda>line. (sos # map (char_id v') line @ [eos]) @
                                   replicate (nat n - (length line + 2)) p) rest"
    and x2: "ext \<longrightarrow> (\<forall>line\<in>set rest. \<forall>c\<in>set line. map_of (string_to_id v') [c] \<noteq> None)"
    and n2: "\<not> ext \<longrightarrow> v' = v1"
    and g2: "v' = v1\<lparr>string_to_id := string_to_id v1 @ e2, id_to_string := i2\<rparr>"
    by (elim exE conjE)
  have st: "map (char_id v') line = map (char_id v1) line"
    using g2 x1 n2 by (rule stable_line)
  have sq: "([sos] @ ids) @ [eos] = seq"
    by (simp add: seq_def)
  have "tgt_loop v ext n p sos eos (line # rest) acc =
          tgt_loop v1 ext n p sos eos rest (acc @ [new])"
    using pd by (simp add: t Let_def sq new_def del: append.simps append_assoc)
  then have r: "tgt_loop v ext n p sos eos (line # rest) acc = Inr (acc @ (new # rows), v')"
    unfolding s by simp
  have "seq = sos # map (char_id v') line @ [eos]"
    using ids st by (simp add: seq_def)
  moreover have "new = seq @ replicate (nat n - (length line + 2)) p"
    unfolding new_def len ..
  ultimately have
    "new = (sos # map (char_id v') line @ [eos]) @ replicate (nat n - (length line + 2)) p"
    by simp
  then have l: "new # rows =
      map (\<lambda>line. (sos # map (char_id v') line @ [eos]) @
                   replicate (nat n - (length line + 2)) p) (line # rest)"
    using rows by simp
  have x: "ext \<longrightarrow> (\<forall>l\<in>set (line # rest). \<forall>c\<in>set l. map_of (string_to_id v') [c] \<noteq> None)"
  proof
    assume ext
    have "map_of (string_to_id v') [c] \<noteq> None" if "c \<in> set line" for c
    proof -
      have "map_of (string_to_id v1) [c] \<noteq> None"
        using x1 \<open>ext\<close> that by simp
      then show ?thesis
        using grows_contains[OF g2, of "[c]"] by simp
    qed
    then show "\<forall>l\<in>set (line # rest). \<forall>c\<in>set l. map_of (string_to_id v') [c] \<noteq> None"
      using x2 \<open>ext\<close> by simp
  qed
  have nx: "\<not> ext \<longrightarrow> v' = v"
    using n1 n2 by simp
  from r l x nx grows_trans[OF g1 g2] show ?case
    by (intro exI conjI)
qed

text \<open>
  C8. For every pair of files with the same number of lines, every pair of vocabularies
  (given or default) and both settings of \<^verbatim>\<open>extend_vocab\<close>, \<^verbatim>\<open>parallel_text_to_data\<close>
  returns one pair per line, where \<open>smax\<close> is the greatest source line length and \<open>tmax\<close>
  the greatest target line length plus 2. The source of pair \<open>i\<close> is the ids of the
  characters of source line \<open>i\<close> (no marker) followed by pad ids, of length \<open>smax\<close>. The
  target of pair \<open>i\<close> is the start-marker id, the ids of the characters of target line
  \<open>i\<close>, the end-marker id (line length plus 2 ids), followed by pad ids, of length \<open>tmax\<close>.
  The ids are those of the vocabularies the call returns.
\<close>

theorem parallel_text_to_data_layout:
  assumes "length src_text = length tgt_text"
  shows "\<exists>data sv tv smax tmax.
           parallel_text_to_data (Some src_text) (Some tgt_text) src_vocab tgt_vocab extend_vocab =
             Inr (data, sv, tv, smax, tmax) \<and>
           smax = Max (set (0 # map (\<lambda>line. int (length line)) src_text)) \<and>
           tmax = Max (set (0 # map (\<lambda>line. int (length line)) tgt_text)) + 2 \<and>
           length data = length src_text \<and>
           (\<forall>i<length data.
              fst (data ! i) =
                map (char_id sv) (src_text ! i) @
                replicate (nat smax - length (src_text ! i)) (pad_id sv) \<and>
              int (length (fst (data ! i))) = smax \<and>
              snd (data ! i) =
                (sos_id tv # map (char_id tv) (tgt_text ! i) @ [eos_id tv]) @
                replicate (nat tmax - (length (tgt_text ! i) + 2)) (pad_id tv) \<and>
              length (sos_id tv # map (char_id tv) (tgt_text ! i) @ [eos_id tv]) =
                length (tgt_text ! i) + 2 \<and>
              int (length (snd (data ! i))) = tmax)"
proof -
  define sv0 where "sv0 = (case src_vocab of None \<Rightarrow> SeqVocabulary_default | Some v \<Rightarrow> v)"
  define tv0 where "tv0 = (case tgt_vocab of None \<Rightarrow> SeqVocabulary_default | Some v \<Rightarrow> v)"
  define smax where "smax = max_length_loop src_text 0"
  define tmax where "tmax = max_length_loop tgt_text 0 + 2"
  define f where "f = (\<lambda>v line. map (char_id v) line @ replicate (nat smax - length line) (pad_id sv0))"
  define h where "h = (\<lambda>v line. (sos_id tv0 # map (char_id v) line @ [eos_id tv0]) @
                                  replicate (nat tmax - (length line + 2)) (pad_id tv0))"
  have sfit: "\<forall>line\<in>set src_text. int (length line) \<le> smax"
    unfolding smax_def by (intro ballI max_length_loop_bound)
  have tfit: "\<forall>line\<in>set tgt_text. int (length line) + 2 \<le> tmax"
  proof
    fix line assume "line \<in> set tgt_text"
    then have "int (length line) \<le> max_length_loop tgt_text 0"
      by (rule max_length_loop_bound)
    then show "int (length line) + 2 \<le> tmax"
      by (simp add: tmax_def)
  qed
  from src_loop_rows[OF sfit, of sv0 extend_vocab "pad_id sv0" "[]"] obtain srows sv e1 i1 where
    sl: "src_loop sv0 extend_vocab smax (pad_id sv0) src_text [] = Inr ([] @ srows, sv)"
    and srows: "srows = map (\<lambda>line. map (char_id sv) line @
                                     replicate (nat smax - length line) (pad_id sv0)) src_text"
    and gs: "sv = sv0\<lparr>string_to_id := string_to_id sv0 @ e1, id_to_string := i1\<rparr>"
    by (elim exE conjE)
  from tgt_loop_rows[OF tfit, of tv0 extend_vocab "pad_id tv0" "sos_id tv0" "eos_id tv0" "[]"]
  obtain trows tv e2 i2 where
    tl: "tgt_loop tv0 extend_vocab tmax (pad_id tv0) (sos_id tv0) (eos_id tv0) tgt_text [] =
           Inr ([] @ trows, tv)"
    and trows: "trows = map (\<lambda>line. (sos_id tv0 # map (char_id tv) line @ [eos_id tv0]) @
                                     replicate (nat tmax - (length line + 2)) (pad_id tv0)) tgt_text"
    and gt: "tv = tv0\<lparr>string_to_id := string_to_id tv0 @ e2, id_to_string := i2\<rparr>"
    by (elim exE conjE)
  have ps: "pad_id sv = pad_id sv0"
    by (rule grows_unk(2)[OF gs])
  have pt: "pad_id tv = pad_id tv0"
    by (rule grows_unk(2)[OF gt])
  have et: "eos_id tv = eos_id tv0" and st: "sos_id tv = sos_id tv0"
    by (rule grows_markers[OF gt])+
  have ls: "length srows = length src_text" and lt: "length trows = length tgt_text"
    by (simp_all add: srows trows)
  have sl': "src_loop sv0 extend_vocab smax (pad_id sv0) src_text [] = Inr (srows, sv)"
    using sl by simp
  have tl': "tgt_loop tv0 extend_vocab tmax (pad_id tv0) (sos_id tv0) (eos_id tv0) tgt_text [] =
               Inr (trows, tv)"
    using tl by simp
  have res: "parallel_text_to_data (Some src_text) (Some tgt_text) src_vocab tgt_vocab extend_vocab =
               Inr (zip srows trows, sv, tv, smax, tmax)"
    unfolding parallel_text_to_data_def
    using assms ls lt
    by (simp add: Let_def sv0_def[symmetric] tv0_def[symmetric] smax_def[symmetric]
        tmax_def[symmetric] sl' tl')
  have m1: "smax = Max (set (0 # map (\<lambda>line. int (length line)) src_text))"
    unfolding smax_def by (rule max_length_loop_Max)
  have m2: "tmax = Max (set (0 # map (\<lambda>line. int (length line)) tgt_text)) + 2"
    unfolding tmax_def max_length_loop_Max ..
  have ld: "length (zip srows trows) = length src_text"
    using ls lt assms by simp
  have rows: "fst (zip srows trows ! i) =
                map (char_id sv) (src_text ! i) @
                replicate (nat smax - length (src_text ! i)) (pad_id sv) \<and>
              int (length (fst (zip srows trows ! i))) = smax \<and>
              snd (zip srows trows ! i) =
                (sos_id tv # map (char_id tv) (tgt_text ! i) @ [eos_id tv]) @
                replicate (nat tmax - (length (tgt_text ! i) + 2)) (pad_id tv) \<and>
              length (sos_id tv # map (char_id tv) (tgt_text ! i) @ [eos_id tv]) =
                length (tgt_text ! i) + 2 \<and>
              int (length (snd (zip srows trows ! i))) = tmax"
    if "i < length (zip srows trows)" for i
  proof -
    have i1: "i < length src_text"
      using that unfolding ld .
    have i2: "i < length tgt_text"
      using i1 unfolding assms .
    have z: "zip srows trows ! i = (srows ! i, trows ! i)"
      using i1 i2 ls lt by simp
    have a: "srows ! i = map (char_id sv) (src_text ! i) @
                         replicate (nat smax - length (src_text ! i)) (pad_id sv)"
      unfolding srows ps using i1 by simp
    have b: "trows ! i = (sos_id tv # map (char_id tv) (tgt_text ! i) @ [eos_id tv]) @
                         replicate (nat tmax - (length (tgt_text ! i) + 2)) (pad_id tv)"
      unfolding trows pt et st using i2 by simp
    have "int (length (src_text ! i)) \<le> smax"
      using sfit i1 by simp
    then have la: "int (length (srows ! i)) = smax"
      unfolding a by simp
    have "int (length (tgt_text ! i)) + 2 \<le> tmax"
      using tfit i2 by simp
    then have lb: "int (length (trows ! i)) = tmax"
      unfolding b by simp
    have lc: "length (sos_id tv # map (char_id tv) (tgt_text ! i) @ [eos_id tv]) =
                length (tgt_text ! i) + 2"
      by simp
    show ?thesis
      unfolding z fst_conv snd_conv using a la b lc lb by (intro conjI)
  qed
  then have all: "\<forall>i<length (zip srows trows).
              fst (zip srows trows ! i) =
                map (char_id sv) (src_text ! i) @
                replicate (nat smax - length (src_text ! i)) (pad_id sv) \<and>
              int (length (fst (zip srows trows ! i))) = smax \<and>
              snd (zip srows trows ! i) =
                (sos_id tv # map (char_id tv) (tgt_text ! i) @ [eos_id tv]) @
                replicate (nat tmax - (length (tgt_text ! i) + 2)) (pad_id tv) \<and>
              length (sos_id tv # map (char_id tv) (tgt_text ! i) @ [eos_id tv]) =
                length (tgt_text ! i) + 2 \<and>
              int (length (snd (zip srows trows ! i))) = tmax"
    by (intro allI impI)
  from res m1 m2 ld all show ?thesis
    by (intro exI conjI)
qed

theorem parallel_text_to_data_layout_witness:
  "\<exists>data sv tv smax tmax.
     parallel_text_to_data (Some [''ab'', ''c'']) (Some [''x'', ''yz'']) None None True =
       Inr (data, sv, tv, smax, tmax) \<and>
     smax = Max (set (0 # map (\<lambda>line. int (length line)) [''ab'', ''c''])) \<and>
     tmax = Max (set (0 # map (\<lambda>line. int (length line)) [''x'', ''yz''])) + 2 \<and>
     length data = length [''ab'', ''c''] \<and>
     (\<forall>i<length data.
        fst (data ! i) =
          map (char_id sv) ([''ab'', ''c''] ! i) @
          replicate (nat smax - length ([''ab'', ''c''] ! i)) (pad_id sv) \<and>
        int (length (fst (data ! i))) = smax \<and>
        snd (data ! i) =
          (sos_id tv # map (char_id tv) ([''x'', ''yz''] ! i) @ [eos_id tv]) @
          replicate (nat tmax - (length ([''x'', ''yz''] ! i) + 2)) (pad_id tv) \<and>
        length (sos_id tv # map (char_id tv) ([''x'', ''yz''] ! i) @ [eos_id tv]) =
          length ([''x'', ''yz''] ! i) + 2 \<and>
        int (length (snd (data ! i))) = tmax)"
  by (rule parallel_text_to_data_layout) simp

text \<open>
  The same call evaluated: the pairs, and the maxima 2 and 4. The source rows carry no
  marker; the target rows start with the start marker 3 and the end marker 2 follows the
  line's ids.
\<close>

lemma parallel_text_to_data_example:
  "\<exists>sv tv. parallel_text_to_data (Some [''ab'', ''c'']) (Some [''x'', ''yz'']) None None True =
     Inr ([([4, 5], [3, 4, 2, 0]), ([6, 0], [3, 5, 6, 2])], sv, tv, 2, 4)"
  by (simp add: parallel_text_to_data_def SeqVocabulary_default_def SeqVocabulary_def
      get_idx_def add_new_word_def dict_set_def dict_len_def dict_contains_def dict_get_def
      pad_sequence_def new_full_def assign_prefix_def py_slice_def Let_def)

end
